theory Spec2Isabelle
  imports Main "HOL-Library.AList" "HOL-Library.Multiset" "HOL-Library.Stream"
begin

section \<open>Data model of Markov.py\<close>

text \<open>
  Exceptions that the Python code can raise, as values.  The only \<^verbatim>\<open>raise\<close> statement of
  the code is the \<open>StopIteration\<close> of \<^verbatim>\<open>LinkedListIterator.__next__\<close>; \<open>IndexError\<close> comes
  from \<^verbatim>\<open>random.choice\<close> on an empty tuple, \<open>KeyError\<close> from subscripting the dict
  \<^verbatim>\<open>first_words\<close>, \<open>AttributeError\<close> from reading an attribute that was never set (or an
  attribute of \<^verbatim>\<open>None\<close>).
\<close>

datatype error = IndexError | KeyError | AttributeError | StopIteration

text \<open>
  \<^verbatim>\<open>Node\<close> has the attributes \<^verbatim>\<open>next\<close>, \<^verbatim>\<open>data\<close> and \<^verbatim>\<open>cnt\<close>; second-level nodes also get
  \<^verbatim>\<open>child\<close>.  \<^verbatim>\<open>LinkedList\<close> has \<^verbatim>\<open>head\<close>; the top-level lists also get \<^verbatim>\<open>cnt\<close>.
  The chain of \<^verbatim>\<open>next\<close> references from \<^verbatim>\<open>head\<close> is a HOL list, head first (every node
  belongs to exactly one list, so there is no sharing to keep track of).  A reference to
  a node of a list is its index in that list.  Counts are Python integers.
\<close>

record counted =
  cnt :: int

record 'w node = counted +
  data :: 'w

record 'w bigram_node = "'w node" +
  child :: "'w node list"

record 'w unigram_list = counted +
  head :: "'w bigram_node list"

text \<open>
  \<^verbatim>\<open>TrigramModel\<close> and \<^verbatim>\<open>OutputGenerator\<close> both have \<^verbatim>\<open>first_words\<close>, \<^verbatim>\<open>prev_prev\<close> and
  \<^verbatim>\<open>prev\<close>.  The dict \<^verbatim>\<open>first_words\<close> is an association list in insertion order, as
  Python dicts are.  \<open>None\<close> in \<open>prev_prev\<close> and \<open>prev\<close> of a model means that the attribute
  does not exist yet (it is created by \<^verbatim>\<open>start_input\<close>); in a generator it is Python's
  \<^verbatim>\<open>None\<close>.
\<close>

record 'w trigram_model =
  first_words :: "('w \<times> 'w unigram_list) list"
  prev_prev :: "'w option"
  prev :: "'w option"

record 'w output_generator = "'w trigram_model" +
  refresh_limit :: int
  refresh_cnt :: int
  prev_4 :: "'w option"
  prev_3 :: "'w option"

section \<open>LinkedList\<close>

text \<open>\<^verbatim>\<open>LinkedList.__getitem__\<close>: linear search; the first node with the data, or None.\<close>

fun getitem :: "('w, 'a) node_scheme list \<Rightarrow> 'w \<Rightarrow> nat option" where
  "getitem [] d = None"
| "getitem (n # ns) d = (if data n = d then Some 0 else map_option Suc (getitem ns d))"

text \<open>
  \<^verbatim>\<open>LinkedList.prepend\<close>: the new node becomes the head; the returned reference is index 0.
  The caller passes the fresh node (\<^verbatim>\<open>Node(data)\<close> has count 0; a second-level node gets
  an empty \<^verbatim>\<open>child\<close> list right after).
\<close>

definition prepend :: "'a list \<Rightarrow> 'a \<Rightarrow> 'a list \<times> nat" where
  "prepend xs n = (n # xs, 0)"

text \<open>
  \<^verbatim>\<open>lagging_iter\<close> iterates over the chain \<^verbatim>\<open>node_before_head, head, head.next, ...\<close>.
  A node of that chain is referred to by the index, in the list, of its \<^verbatim>\<open>next\<close> node:
  \<open>0\<close> is \<^verbatim>\<open>node_before_head\<close>, \<open>Suc i\<close> is the node at index \<open>i\<close> (so the last node of a
  list of length \<open>n\<close> is \<open>n\<close>).  The iterator is its current position together with the
  position of the last node of the chain; past that, \<^verbatim>\<open>self.node\<close> is None.
\<close>

type_synonym lagging_iterator = "nat \<times> nat"

definition lagging_iter :: "'a list \<Rightarrow> lagging_iterator" where
  "lagging_iter xs = (0, length xs)"

text \<open>\<^verbatim>\<open>LinkedListIterator.__next__\<close> on a lagging iterator.\<close>

definition next_node :: "lagging_iterator \<Rightarrow> error + (nat \<times> lagging_iterator)" where
  "next_node it = (case it of (p, n) \<Rightarrow>
     if n < p then Inl StopIteration else Inr (p, (Suc p, n)))"

text \<open>
  \<^verbatim>\<open>LinkedList.move_next_to_head\<close>.  \<^verbatim>\<open>prev_node.next is self.head\<close> holds exactly for
  \<^verbatim>\<open>node_before_head\<close>.  For the last node of the list \<^verbatim>\<open>prev_node.next\<close> is None, and
  \<^verbatim>\<open>prev_node.next.next\<close> raises AttributeError.
\<close>

definition move_next_to_head :: "'a list \<Rightarrow> nat option \<Rightarrow> error + 'a list" where
  "move_next_to_head xs prev_node =
     (case prev_node of
        None \<Rightarrow> Inr xs
      | Some j \<Rightarrow>
          if j = 0 then Inr xs
          else if j < length xs then Inr (xs ! j # take j xs @ drop (Suc j) xs)
          else Inl AttributeError)"

section \<open>TrigramModel: training\<close>

definition TrigramModel :: "'w trigram_model" where
  "TrigramModel = \<lparr>first_words = [], prev_prev = None, prev = None\<rparr>"

text \<open>
  \<^verbatim>\<open>_count_unigram\<close> returns the dict together with the list object that is now stored
  under \<open>word\<close>; a caller that mutates that object writes it back under the same key.
\<close>

definition count_unigram ::
  "('w \<times> 'w unigram_list) list \<Rightarrow> 'w \<Rightarrow> ('w \<times> 'w unigram_list) list \<times> 'w unigram_list" where
  "count_unigram fw word =
     (let bigram_list = (case map_of fw word of
                           None \<Rightarrow> \<lparr>cnt = 0, head = []\<rparr>
                         | Some l \<Rightarrow> l);
          bigram_list = bigram_list\<lparr>cnt := cnt bigram_list + 1\<rparr>
      in (AList.update word bigram_list fw, bigram_list))"

text \<open>
  \<^verbatim>\<open>_count_bigram\<close> returns the list and the index of the node whose \<^verbatim>\<open>child\<close> the Python
  returns.
\<close>

definition count_bigram :: "'w unigram_list \<Rightarrow> 'w \<Rightarrow> 'w unigram_list \<times> nat" where
  "count_bigram bigram_list word =
     (let (ns, i) = (case getitem (head bigram_list) word of
                       None \<Rightarrow> prepend (head bigram_list) \<lparr>cnt = 0, data = word, child = []\<rparr>
                     | Some i \<Rightarrow> (head bigram_list, i))
      in (bigram_list\<lparr>head := ns[i := (ns ! i)\<lparr>cnt := cnt (ns ! i) + 1\<rparr>]\<rparr>, i))"

definition count_trigram :: "'w node list \<Rightarrow> 'w \<Rightarrow> 'w node list" where
  "count_trigram trigram_list word =
     (let (ns, i) = (case getitem trigram_list word of
                       None \<Rightarrow> prepend trigram_list \<lparr>cnt = 0, data = word\<rparr>
                     | Some i \<Rightarrow> (trigram_list, i))
      in ns[i := (ns ! i)\<lparr>cnt := cnt (ns ! i) + 1\<rparr>])"

definition start_input :: "'w trigram_model \<Rightarrow> 'w \<Rightarrow> 'w \<Rightarrow> 'w trigram_model" where
  "start_input m first_word second_word = m\<lparr>prev_prev := Some first_word, prev := Some second_word\<rparr>"

definition end_input :: "'w trigram_model \<Rightarrow> error + 'w trigram_model" where
  "end_input m =
     (case (prev_prev m, prev m) of
        (Some pp, Some p) \<Rightarrow>
          (let (fw, bigram_list) = count_unigram (first_words m) pp;
               (bigram_list, i) = count_bigram bigram_list p;
               fw = AList.update pp bigram_list fw;
               (fw, l) = count_unigram fw p
           in Inr (m\<lparr>first_words := fw\<rparr>))
      | _ \<Rightarrow> Inl AttributeError)"

definition consume_word :: "'w trigram_model \<Rightarrow> 'w \<Rightarrow> error + 'w trigram_model" where
  "consume_word m word =
     (case (prev_prev m, prev m) of
        (Some pp, Some p) \<Rightarrow>
          (let (fw, bigram_list) = count_unigram (first_words m) pp;
               (bigram_list, i) = count_bigram bigram_list p;
               bigram_node = head bigram_list ! i;
               trigram_list = count_trigram (child bigram_node) word;
               bigram_list = bigram_list\<lparr>head := (head bigram_list)[i := bigram_node\<lparr>child := trigram_list\<rparr>]\<rparr>;
               fw = AList.update pp bigram_list fw
           in Inr (m\<lparr>first_words := fw, prev_prev := Some p, prev := Some word\<rparr>))
      | _ \<Rightarrow> Inl AttributeError)"

section \<open>TrigramModel: finish\<close>

text \<open>
  \<^verbatim>\<open>best_choice\<close> is the list \<^verbatim>\<open>[count, node before the best node, lagging iterator]\<close>.
\<close>

type_synonym choice = "int \<times> nat option \<times> lagging_iterator"

definition update_choice :: "choice \<Rightarrow> int \<Rightarrow> error + choice" where
  "update_choice best_choice new_cnt =
     (case best_choice of (best, prev_node, it) \<Rightarrow>
        (case next_node it of
           Inl e \<Rightarrow> Inl e
         | Inr (p, it') \<Rightarrow>
             if new_cnt \<ge> best then Inr (new_cnt, Some p, it') else Inr (best, prev_node, it')))"

text \<open>
  The inner loop of \<^verbatim>\<open>finish\<close>: \<^verbatim>\<open>for thirdWordNode in secondWordNode.child\<close>.
\<close>

fun scan_trigrams :: "choice \<Rightarrow> 'w node list \<Rightarrow> error + choice" where
  "scan_trigrams trigram_choice [] = Inr trigram_choice"
| "scan_trigrams trigram_choice (thirdWordNode # ns) =
     (case update_choice trigram_choice (cnt thirdWordNode) of
        Inl e \<Rightarrow> Inl e
      | Inr c \<Rightarrow> scan_trigrams c ns)"

text \<open>
  The loop \<^verbatim>\<open>for secondWordNode in firstWord\<close>: the nodes still to visit, the current
  \<^verbatim>\<open>bigram_choice\<close>; the result is the final \<^verbatim>\<open>bigram_choice\<close> and the visited nodes with
  their \<^verbatim>\<open>child\<close> lists reordered.
\<close>

fun scan_bigrams :: "choice \<Rightarrow> 'w bigram_node list \<Rightarrow> error + (choice \<times> 'w bigram_node list)" where
  "scan_bigrams bigram_choice [] = Inr (bigram_choice, [])"
| "scan_bigrams bigram_choice (secondWordNode # ns) =
     (case update_choice bigram_choice (cnt secondWordNode) of
        Inl e \<Rightarrow> Inl e
      | Inr bigram_choice \<Rightarrow>
          (case scan_trigrams (-1, None, lagging_iter (child secondWordNode)) (child secondWordNode) of
             Inl e \<Rightarrow> Inl e
           | Inr trigram_choice \<Rightarrow>
               (case move_next_to_head (child secondWordNode) (fst (snd trigram_choice)) of
                  Inl e \<Rightarrow> Inl e
                | Inr c \<Rightarrow>
                    (case scan_bigrams bigram_choice ns of
                       Inl e \<Rightarrow> Inl e
                     | Inr (bigram_choice, ns') \<Rightarrow>
                         Inr (bigram_choice, secondWordNode\<lparr>child := c\<rparr> # ns')))))"

text \<open>The body of the outer loop of \<^verbatim>\<open>finish\<close>, for one value \<^verbatim>\<open>firstWord\<close> of the dict.\<close>

definition finish_first_word :: "'w unigram_list \<Rightarrow> error + 'w unigram_list" where
  "finish_first_word firstWord =
     (case scan_bigrams (-1, None, lagging_iter (head firstWord)) (head firstWord) of
        Inl e \<Rightarrow> Inl e
      | Inr (bigram_choice, ns) \<Rightarrow>
          (case move_next_to_head ns (fst (snd bigram_choice)) of
             Inl e \<Rightarrow> Inl e
           | Inr ns' \<Rightarrow> Inr (firstWord\<lparr>head := ns'\<rparr>)))"

text \<open>The outer loop: \<^verbatim>\<open>for firstWord in self.first_words.values()\<close>.\<close>

fun finish_values :: "('w \<times> 'w unigram_list) list \<Rightarrow> error + ('w \<times> 'w unigram_list) list" where
  "finish_values [] = Inr []"
| "finish_values ((w, firstWord) # fw) =
     (case finish_first_word firstWord of
        Inl e \<Rightarrow> Inl e
      | Inr l \<Rightarrow>
          (case finish_values fw of
             Inl e \<Rightarrow> Inl e
           | Inr fw' \<Rightarrow> Inr ((w, l) # fw')))"

definition finish :: "'w trigram_model \<Rightarrow> error + 'w trigram_model" where
  "finish m =
     (case finish_values (first_words m) of
        Inl e \<Rightarrow> Inl e
      | Inr fw \<Rightarrow> Inr (m\<lparr>first_words := fw\<rparr>))"


section \<open>The training protocol\<close>

text \<open>
  The loop of the caller over the words after the second one
  (\<^verbatim>\<open>for i in range(2, len(words)): model.consume_word(words[i])\<close>).
\<close>

fun consume_words :: "'w trigram_model \<Rightarrow> 'w list \<Rightarrow> error + 'w trigram_model" where
  "consume_words m [] = Inr m"
| "consume_words m (w # ws) =
     (case consume_word m w of
        Inl e \<Rightarrow> Inl e
      | Inr m' \<Rightarrow> consume_words m' ws)"

text \<open>
  One complete training cycle: \<^verbatim>\<open>start_input\<close>, any number of \<^verbatim>\<open>consume_word\<close>,
  \<^verbatim>\<open>end_input\<close>.  A document is its first word, its second word and the words after.
\<close>

type_synonym 'w document = "'w \<times> 'w \<times> 'w list"

definition training_cycle :: "'w trigram_model \<Rightarrow> 'w document \<Rightarrow> error + 'w trigram_model" where
  "training_cycle m d =
     (case d of (first_word, second_word, ws) \<Rightarrow>
        (case consume_words (start_input m first_word second_word) ws of
           Inl e \<Rightarrow> Inl e
         | Inr m' \<Rightarrow> end_input m'))"

fun train :: "'w trigram_model \<Rightarrow> 'w document list \<Rightarrow> error + 'w trigram_model" where
  "train m [] = Inr m"
| "train m (d # ds) =
     (case training_cycle m d of
        Inl e \<Rightarrow> Inl e
      | Inr m' \<Rightarrow> train m' ds)"

section \<open>OutputGenerator\<close>

definition OutputGenerator :: "('w \<times> 'w unigram_list) list \<Rightarrow> int \<Rightarrow> 'w output_generator" where
  "OutputGenerator fw limit =
     \<lparr>first_words = fw, prev_prev = None, prev = None,
      refresh_limit = limit, refresh_cnt = limit, prev_4 = None, prev_3 = None\<rparr>"

definition output_generator :: "'w trigram_model \<Rightarrow> int \<Rightarrow> 'w output_generator" where
  "output_generator m limit = OutputGenerator (first_words m) limit"

text \<open>
  \<^verbatim>\<open>random.choice\<close>.  The random source is a stream of naturals; a draw below \<open>n\<close> takes
  the next one modulo \<open>n\<close>, so every outcome is the draw of some stream.  On an empty
  sequence \<^verbatim>\<open>choice\<close> raises IndexError.
\<close>

type_synonym rng = "nat stream"

definition random_choice :: "'a list \<Rightarrow> rng \<Rightarrow> error + ('a \<times> rng)" where
  "random_choice seq r =
     (if seq = [] then Inl IndexError else Inr (seq ! (shd r mod length seq), stl r))"

definition rand_word :: "'w output_generator \<Rightarrow> rng \<Rightarrow> error + ('w \<times> 'w output_generator \<times> rng)" where
  "rand_word g r =
     (let g = g\<lparr>refresh_cnt := refresh_limit g\<rparr>
      in case random_choice (map fst (first_words g)) r of
           Inl e \<Rightarrow> Inl e
         | Inr (w, r') \<Rightarrow> Inr (w, g, r'))"

text \<open>
  \<^verbatim>\<open>self.first_words[self.prev]\<close> raises KeyError when \<^verbatim>\<open>self.prev\<close> is not a key (None
  never is one).
\<close>

definition best_bigram :: "'w output_generator \<Rightarrow> rng \<Rightarrow> error + ('w \<times> 'w output_generator \<times> rng)" where
  "best_bigram g r =
     (case prev g of
        None \<Rightarrow> Inl KeyError
      | Some p \<Rightarrow>
          (case map_of (first_words g) p of
             None \<Rightarrow> Inl KeyError
           | Some l \<Rightarrow>
               (case head l of
                  bigram_node # _ \<Rightarrow> Inr (data bigram_node, g, r)
                | [] \<Rightarrow> rand_word g r)))"

text \<open>
  \<^verbatim>\<open>self.first_words[self.prev_prev][self.prev]\<close>: the dict lookup raises KeyError on a
  missing key; the search in the list finds no node for None.
\<close>

definition best_trigram :: "'w output_generator \<Rightarrow> rng \<Rightarrow> error + ('w \<times> 'w output_generator \<times> rng)" where
  "best_trigram g r =
     (case prev_prev g of
        None \<Rightarrow> Inl KeyError
      | Some pp \<Rightarrow>
          (case map_of (first_words g) pp of
             None \<Rightarrow> Inl KeyError
           | Some l \<Rightarrow>
               (case (case prev g of None \<Rightarrow> None | Some p \<Rightarrow> getitem (head l) p) of
                  None \<Rightarrow> best_bigram g r
                | Some i \<Rightarrow>
                    (case child (head l ! i) of
                       n # _ \<Rightarrow> Inr (data n, g, r)
                     | [] \<Rightarrow> best_bigram g r))))"

text \<open>The conditional expression that \<^verbatim>\<open>generate_word\<close> assigns to \<^verbatim>\<open>new_word\<close> first.\<close>

definition select_candidate :: "'w output_generator \<Rightarrow> rng \<Rightarrow> error + ('w \<times> 'w output_generator \<times> rng)" where
  "select_candidate g r =
     (if refresh_cnt g \<le> 0 then rand_word g r
      else if prev_prev g \<noteq> None then best_trigram g r
      else if prev g \<noteq> None then best_bigram g r
      else rand_word g r)"

definition generate_word :: "'w output_generator \<Rightarrow> rng \<Rightarrow> error + ('w \<times> 'w output_generator \<times> rng)" where
  "generate_word g r =
     (case select_candidate g r of
        Inl e \<Rightarrow> Inl e
      | Inr (new_word, g, r) \<Rightarrow>
          (case (if (Some new_word = prev_prev g \<and> prev g = prev_3 g) \<or>
                    (Some new_word = prev_3 g \<and> prev g = prev_4 g)
                 then rand_word g r
                 else Inr (new_word, g, r)) of
             Inl e \<Rightarrow> Inl e
           | Inr (new_word, g, r) \<Rightarrow>
               Inr (new_word,
                    g\<lparr>refresh_cnt := refresh_cnt g - 1,
                      prev_4 := prev_3 g,
                      prev_3 := prev_prev g,
                      prev_prev := prev g,
                      prev := Some new_word\<rparr>,
                    r)))"

text \<open>
  The caller's loop: \<open>n\<close> calls of \<^verbatim>\<open>generate_word\<close> in a row; the words in the order they
  were returned, and the generator and the random source after the last call.
\<close>

fun generate_words ::
  "'w output_generator \<Rightarrow> rng \<Rightarrow> nat \<Rightarrow> error + ('w list \<times> 'w output_generator \<times> rng)" where
  "generate_words g r 0 = Inr ([], g, r)"
| "generate_words g r (Suc n) =
     (case generate_word g r of
        Inl e \<Rightarrow> Inl e
      | Inr (w, g', r') \<Rightarrow>
          (case generate_words g' r' n of
             Inl e \<Rightarrow> Inl e
           | Inr (ws, g'', r'') \<Rightarrow> Inr (w # ws, g'', r'')))"


section \<open>Closed forms of the loops of finish\<close>

text \<open>
  What a scan with \<^verbatim>\<open>_update_choice\<close> records about the counts \<open>cs\<close>, started with best
  count \<open>b\<close>, recorded position \<open>pv\<close> and lagging position \<open>p\<close>: the best count and the
  lagging position recorded with it.
\<close>

fun pick :: "int \<Rightarrow> nat option \<Rightarrow> nat \<Rightarrow> int list \<Rightarrow> int \<times> nat option" where
  "pick b pv p [] = (b, pv)"
| "pick b pv p (c # cs) = (if c \<ge> b then pick c (Some p) (Suc p) cs else pick b pv (Suc p) cs)"

text \<open>A list after its scan and \<^verbatim>\<open>move_next_to_head\<close>.\<close>

definition promoted :: "('a counted_scheme) list \<Rightarrow> ('a counted_scheme) list" where
  "promoted xs =
     (case snd (pick (-1) None 0 (map cnt xs)) of
        None \<Rightarrow> xs
      | Some j \<Rightarrow> if j = 0 then xs else xs ! j # take j xs @ drop (Suc j) xs)"

definition finished_list :: "'w unigram_list \<Rightarrow> 'w unigram_list" where
  "finished_list u = u\<lparr>head := promoted (map (\<lambda>n. n\<lparr>child := promoted (child n)\<rparr>) (head u))\<rparr>"

section \<open>Notions used to state the properties\<close>

text \<open>
  What \<^verbatim>\<open>finish\<close> must leave alone.  An entry of a second-level list is its word, its count
  and the entries of its third-level list, in any order; two top-level lists have the same
  entries when their counts agree and their second-level lists hold the same entries, in
  any order.
\<close>

definition entry :: "'w bigram_node \<Rightarrow> 'w \<times> int \<times> 'w node multiset" where
  "entry n = (data n, cnt n, mset (child n))"

definition same_entries :: "'w unigram_list \<Rightarrow> 'w unigram_list \<Rightarrow> bool" where
  "same_entries u u' = (cnt u' = cnt u \<and> mset (map entry (head u')) = mset (map entry (head u)))"

section \<open>What training has counted\<close>

text \<open>
  The countings of one training cycle, in the order in which the calls make them:
  \<^verbatim>\<open>consume_word\<close> counts the unigram \<open>pp\<close>, the bigram \<open>pp p\<close> and the trigram \<open>pp p w\<close>;
  \<^verbatim>\<open>end_input\<close> counts the unigram \<open>pp\<close>, the bigram \<open>pp p\<close> and the unigram \<open>p\<close>.  Over a
  whole document these are its words, its pairs of adjacent words and its triples of
  adjacent words.
\<close>

fun cycle_unigrams :: "'w \<Rightarrow> 'w \<Rightarrow> 'w list \<Rightarrow> 'w list" where
  "cycle_unigrams pp p [] = [pp, p]"
| "cycle_unigrams pp p (w # ws) = pp # cycle_unigrams p w ws"

fun cycle_bigrams :: "'w \<Rightarrow> 'w \<Rightarrow> 'w list \<Rightarrow> ('w \<times> 'w) list" where
  "cycle_bigrams pp p [] = [(pp, p)]"
| "cycle_bigrams pp p (w # ws) = (pp, p) # cycle_bigrams p w ws"

fun cycle_trigrams :: "'w \<Rightarrow> 'w \<Rightarrow> 'w list \<Rightarrow> ('w \<times> 'w \<times> 'w) list" where
  "cycle_trigrams pp p [] = []"
| "cycle_trigrams pp p (w # ws) = (pp, p, w) # cycle_trigrams p w ws"

definition counted_unigrams :: "'w document list \<Rightarrow> 'w list" where
  "counted_unigrams ds = concat (map (\<lambda>(a, b, ws). cycle_unigrams a b ws) ds)"

definition counted_bigrams :: "'w document list \<Rightarrow> ('w \<times> 'w) list" where
  "counted_bigrams ds = concat (map (\<lambda>(a, b, ws). cycle_bigrams a b ws) ds)"

definition counted_trigrams :: "'w document list \<Rightarrow> ('w \<times> 'w \<times> 'w) list" where
  "counted_trigrams ds = concat (map (\<lambda>(a, b, ws). cycle_trigrams a b ws) ds)"

text \<open>
  The words counted after \<open>a\<close>, and after \<open>a b\<close>, oldest first.
\<close>

definition followers2 :: "('w \<times> 'w) list \<Rightarrow> 'w \<Rightarrow> 'w list" where
  "followers2 B a = map snd (filter (\<lambda>x. fst x = a) B)"

definition followers3 :: "('w \<times> 'w \<times> 'w) list \<Rightarrow> 'w \<Rightarrow> 'w \<Rightarrow> 'w list" where
  "followers3 T a b = map (\<lambda>x. snd (snd x)) (filter (\<lambda>x. fst x = a \<and> fst (snd x) = b) T)"

text \<open>
  The lists that a history of countings builds: one node per distinct word, the newest
  node first (every new node is prepended, so the word that was counted first comes last),
  each with the number of times its word was counted.
\<close>

definition tlist :: "'w list \<Rightarrow> 'w node list" where
  "tlist obs = map (\<lambda>c. \<lparr>cnt = int (count_list obs c), data = c\<rparr>) (remdups (rev obs))"

definition blist :: "('w \<times> 'w) list \<Rightarrow> ('w \<times> 'w \<times> 'w) list \<Rightarrow> 'w \<Rightarrow> 'w bigram_node list" where
  "blist B T a =
     map (\<lambda>b. \<lparr>cnt = int (count_list (followers2 B a) b), data = b, child = tlist (followers3 T a b)\<rparr>)
       (remdups (rev (followers2 B a)))"

definition ulist :: "'w list \<Rightarrow> ('w \<times> 'w) list \<Rightarrow> ('w \<times> 'w \<times> 'w) list \<Rightarrow> 'w \<Rightarrow> 'w unigram_list" where
  "ulist U B T a = \<lparr>cnt = int (count_list U a), head = blist B T a\<rparr>"

text \<open>
  The dict \<open>fw\<close> holds exactly what the countings \<open>U\<close> (unigrams), \<open>B\<close> (bigrams) and \<open>T\<close>
  (trigrams) build.
\<close>

definition represents ::
  "('w \<times> 'w unigram_list) list \<Rightarrow> 'w list \<Rightarrow> ('w \<times> 'w) list \<Rightarrow> ('w \<times> 'w \<times> 'w) list \<Rightarrow> bool" where
  "represents fw U B T =
     (distinct (map fst fw) \<and>
      (\<forall>a. map_of fw a = (if a \<in> set U then Some (ulist U B T a) else None)) \<and>
      fst ` set B \<subseteq> set U \<and>
      (\<lambda>x. (fst x, fst (snd x))) ` set T \<subseteq> set B)"



text \<open>
  The worked example of the specification: the document \<open>x y z x y w\<close>, and the model
  that training on it alone builds.
\<close>

definition worked_example :: "string document" where
  "worked_example = (''x'', ''y'', [''z'', ''x'', ''y'', ''w''])"

definition worked_example_model :: "string trigram_model" where
  "worked_example_model =
     \<lparr>first_words =
        [(''x'', \<lparr>cnt = 2, head =
            [\<lparr>cnt = 2, data = ''y'', child = [\<lparr>cnt = 1, data = ''w''\<rparr>, \<lparr>cnt = 1, data = ''z''\<rparr>]\<rparr>]\<rparr>),
         (''y'', \<lparr>cnt = 2, head =
            [\<lparr>cnt = 1, data = ''w'', child = []\<rparr>,
             \<lparr>cnt = 1, data = ''z'', child = [\<lparr>cnt = 1, data = ''x''\<rparr>]\<rparr>]\<rparr>),
         (''z'', \<lparr>cnt = 1, head =
            [\<lparr>cnt = 1, data = ''x'', child = [\<lparr>cnt = 1, data = ''y''\<rparr>]\<rparr>]\<rparr>),
         (''w'', \<lparr>cnt = 1, head = []\<rparr>)],
      prev_prev = Some ''y'', prev = Some ''w''\<rparr>"




text \<open>
  The second-level list stored for the word \<open>a\<close>, and the third-level list stored for the
  words \<open>a b\<close>, found as the code finds them (dict lookup, then \<^verbatim>\<open>__getitem__\<close>); empty when
  there is none.
\<close>

definition bigrams :: "('w \<times> 'w unigram_list) list \<Rightarrow> 'w \<Rightarrow> 'w bigram_node list" where
  "bigrams fw a = (case map_of fw a of None \<Rightarrow> [] | Some l \<Rightarrow> head l)"

definition trigrams :: "('w \<times> 'w unigram_list) list \<Rightarrow> 'w \<Rightarrow> 'w \<Rightarrow> 'w node list" where
  "trigrams fw a b =
     (case getitem (bigrams fw a) b of None \<Rightarrow> [] | Some i \<Rightarrow> child (bigrams fw a ! i))"




text \<open>
  Of the words counted in a context, oldest first in \<open>obs\<close>, the one counted first among
  those counted most often.
\<close>

definition earliest_best :: "'w list \<Rightarrow> 'w" where
  "earliest_best obs =
     hd (filter (\<lambda>w. list_all (\<lambda>v. count_list obs v \<le> count_list obs w) obs) obs)"

text \<open>
  The list holds one entry for every word counted in the context, with the number of
  times it was counted (an entry is created the first time its word is counted in the
  context).
\<close>

definition holds_counts :: "'w list \<Rightarrow> ('w, 'a) node_scheme list \<Rightarrow> bool" where
  "holds_counts obs xs =
     (mset (map (\<lambda>n. (data n, cnt n)) xs) =
      mset (map (\<lambda>w. (w, int (count_list obs w))) (remdups obs)))"

text \<open>
  The head of a non-empty list is the entry of the word counted first among those counted
  most often; and this, together with the counts, for every second-level list (whose context
  is the key \<open>a\<close>: the words counted after \<open>a\<close>) and every third-level list (whose context
  is \<open>a\<close> and the word of its second-level entry) of a dict built from the documents \<open>ds\<close>.
\<close>

definition earliest_head :: "'w list \<Rightarrow> ('w, 'a) node_scheme list \<Rightarrow> bool" where
  "earliest_head obs xs = (case xs of [] \<Rightarrow> True | n # _ \<Rightarrow> data n = earliest_best obs)"

definition earliest_heads :: "'w document list \<Rightarrow> ('w \<times> 'w unigram_list) list \<Rightarrow> bool" where
  "earliest_heads ds fw =
     list_all (\<lambda>(a, u).
        holds_counts (followers2 (counted_bigrams ds) a) (head u) \<and>
        earliest_head (followers2 (counted_bigrams ds) a) (head u) \<and>
        list_all (\<lambda>n.
           holds_counts (followers3 (counted_trigrams ds) a (data n)) (child n) \<and>
           earliest_head (followers3 (counted_trigrams ds) a (data n)) (child n)) (head u)) fw"

text \<open>The model of the worked example after \<^verbatim>\<open>finish\<close>.\<close>

definition worked_example_finished :: "string trigram_model" where
  "worked_example_finished =
     \<lparr>first_words =
        [(''x'', \<lparr>cnt = 2, head =
            [\<lparr>cnt = 2, data = ''y'', child = [\<lparr>cnt = 1, data = ''z''\<rparr>, \<lparr>cnt = 1, data = ''w''\<rparr>]\<rparr>]\<rparr>),
         (''y'', \<lparr>cnt = 2, head =
            [\<lparr>cnt = 1, data = ''z'', child = [\<lparr>cnt = 1, data = ''x''\<rparr>]\<rparr>,
             \<lparr>cnt = 1, data = ''w'', child = []\<rparr>]\<rparr>),
         (''z'', \<lparr>cnt = 1, head =
            [\<lparr>cnt = 1, data = ''x'', child = [\<lparr>cnt = 1, data = ''y''\<rparr>]\<rparr>]\<rparr>),
         (''w'', \<lparr>cnt = 1, head = []\<rparr>)],
      prev_prev = Some ''y'', prev = Some ''w''\<rparr>"

text \<open>
  The count stored for the unigram \<open>a\<close> and for the bigram \<open>a b\<close>, found as the code finds
  them; 0 when there is no entry.
\<close>

definition unigram_count :: "('w \<times> 'w unigram_list) list \<Rightarrow> 'w \<Rightarrow> int" where
  "unigram_count fw a = (case map_of fw a of None \<Rightarrow> 0 | Some l \<Rightarrow> cnt l)"

definition bigram_count :: "('w \<times> 'w unigram_list) list \<Rightarrow> 'w \<Rightarrow> 'w \<Rightarrow> int" where
  "bigram_count fw a b =
     (case getitem (bigrams fw a) b of None \<Rightarrow> 0 | Some i \<Rightarrow> cnt (bigrams fw a ! i))"

text \<open>The model of the worked example after its last \<^verbatim>\<open>consume_word\<close>, before \<^verbatim>\<open>end_input\<close>.\<close>

definition worked_example_before_end :: "string trigram_model" where
  "worked_example_before_end =
     \<lparr>first_words =
        [(''x'', \<lparr>cnt = 2, head =
            [\<lparr>cnt = 2, data = ''y'', child = [\<lparr>cnt = 1, data = ''w''\<rparr>, \<lparr>cnt = 1, data = ''z''\<rparr>]\<rparr>]\<rparr>),
         (''y'', \<lparr>cnt = 1, head =
            [\<lparr>cnt = 1, data = ''z'', child = [\<lparr>cnt = 1, data = ''x''\<rparr>]\<rparr>]\<rparr>),
         (''z'', \<lparr>cnt = 1, head =
            [\<lparr>cnt = 1, data = ''x'', child = [\<lparr>cnt = 1, data = ''y''\<rparr>]\<rparr>]\<rparr>)],
      prev_prev = Some ''y'', prev = Some ''w''\<rparr>"

text \<open>
  Python's \<^verbatim>\<open>LookupError\<close>: the exceptions of a failed subscript or key lookup, as opposed
  to a rejection that the code itself would raise on checking a precondition (the code
  has no such check).
\<close>

definition lookup_error :: "error \<Rightarrow> bool" where
  "lookup_error e = (case e of IndexError \<Rightarrow> True | KeyError \<Rightarrow> True | _ \<Rightarrow> False)"

text \<open>The last four assignments of \<^verbatim>\<open>generate_word\<close>: the window moves on by the word.\<close>

definition shift_window :: "'w output_generator \<Rightarrow> 'w \<Rightarrow> 'w output_generator" where
  "shift_window g w =
     g\<lparr>prev_4 := prev_3 g, prev_3 := prev_prev g, prev_prev := prev g, prev := Some w\<rparr>"

text \<open>
  A generator over the finished worked example that has just produced \<open>x y x\<close> (its limit
  is 2): the greedy candidate \<open>y\<close> would start the cycle \<open>x y x y\<close>.
\<close>

definition cycling_generator :: "string output_generator" where
  "cycling_generator =
     \<lparr>first_words = first_words worked_example_finished,
      prev_prev = Some ''y'', prev = Some ''x'',
      refresh_limit = 2, refresh_cnt = 1, prev_4 = None, prev_3 = Some ''x''\<rparr>"

text \<open>
  Every word stored in an entry of a second-level or third-level list of the dict is a key
  of the dict.
\<close>

definition vocab_closed :: "('w \<times> 'w unigram_list) list \<Rightarrow> bool" where
  "vocab_closed fw =
     list_all (\<lambda>(a, u).
        list_all (\<lambda>n. data n \<in> set (map fst fw) \<and>
                      list_all (\<lambda>t. data t \<in> set (map fst fw)) (child n)) (head u)) fw"

text \<open>
  The last two words of a generator, as far as they are set, are keys of its dict, and the
  second to last word is set only when the last one is.
\<close>

definition window_known :: "'w output_generator \<Rightarrow> bool" where
  "window_known g =
     ((case prev g of
         None \<Rightarrow> prev_prev g = None
       | Some p \<Rightarrow> p \<in> set (map fst (first_words g))) \<and>
      (case prev_prev g of
         None \<Rightarrow> True
       | Some pp \<Rightarrow> pp \<in> set (map fst (first_words g))))"

text \<open>
  The candidate selection as the specification words it, rule by rule: a random draw from
  the keys that resets the counter; the head of the trigram container of the bigram entry for
  \<open>w[t-1]\<close> under the unigram for \<open>w[t-2]\<close>, when that entry exists and its container is not
  empty; the head of the bigram container of \<open>w[t-1]\<close>, when it is not empty.  A missing
  entry or an empty container is no failure here: the lookups \<open>bigrams\<close> and \<open>trigrams\<close>
  give the empty list.
\<close>

definition draw_by_rules ::
  "'w output_generator \<Rightarrow> rng \<Rightarrow> error + ('w \<times> 'w output_generator \<times> rng)" where
  "draw_by_rules g r =
     (case map fst (first_words g) of
        [] \<Rightarrow> Inl IndexError
      | k # ks \<Rightarrow> Inr ((k # ks) ! (shd r mod length (k # ks)),
                       g\<lparr>refresh_cnt := refresh_limit g\<rparr>, stl r))"

definition trigram_head :: "'w output_generator \<Rightarrow> 'w option" where
  "trigram_head g =
     (case (prev_prev g, prev g) of
        (Some a, Some b) \<Rightarrow>
          (case trigrams (first_words g) a b of [] \<Rightarrow> None | t # _ \<Rightarrow> Some (data t))
      | _ \<Rightarrow> None)"

definition bigram_head :: "'w output_generator \<Rightarrow> 'w option" where
  "bigram_head g =
     (case prev g of
        Some b \<Rightarrow> (case bigrams (first_words g) b of [] \<Rightarrow> None | n # _ \<Rightarrow> Some (data n))
      | None \<Rightarrow> None)"

definition bigram_rule ::
  "'w output_generator \<Rightarrow> rng \<Rightarrow> error + ('w \<times> 'w output_generator \<times> rng)" where
  "bigram_rule g r = (case bigram_head g of Some w \<Rightarrow> Inr (w, g, r) | None \<Rightarrow> draw_by_rules g r)"

definition candidate_by_rules ::
  "'w output_generator \<Rightarrow> rng \<Rightarrow> error + ('w \<times> 'w output_generator \<times> rng)" where
  "candidate_by_rules g r =
     (if refresh_cnt g \<le> 0 then draw_by_rules g r
      else if prev_prev g \<noteq> None \<and> prev g \<noteq> None then
        (case trigram_head g of Some w \<Rightarrow> Inr (w, g, r) | None \<Rightarrow> bigram_rule g r)
      else if prev g \<noteq> None then bigram_rule g r
      else draw_by_rules g r)"

text \<open>
  A run without interference: at each of its calls the candidate triggers no cycle
  suppression, and when the call is neither the first one nor a forced draw, the greedy
  rules have a head to offer (so that the only draws are the first one and the forced
  ones).
\<close>

definition cycle_detected :: "'w output_generator \<Rightarrow> 'w \<Rightarrow> bool" where
  "cycle_detected g c =
     ((Some c = prev_prev g \<and> prev g = prev_3 g) \<or> (Some c = prev_3 g \<and> prev g = prev_4 g))"

definition greedy_available :: "'w output_generator \<Rightarrow> bool" where
  "greedy_available g = (trigram_head g \<noteq> None \<or> bigram_head g \<noteq> None)"

definition undisturbed :: "'w output_generator \<Rightarrow> rng \<Rightarrow> bool" where
  "undisturbed g r =
     (case select_candidate g r of
        Inl e \<Rightarrow> False
      | Inr (c, g1, r1) \<Rightarrow>
          \<not> cycle_detected g c \<and> (refresh_cnt g \<le> 0 \<or> prev g = None \<or> greedy_available g))"

fun undisturbed_run :: "'w output_generator \<Rightarrow> rng \<Rightarrow> nat \<Rightarrow> bool" where
  "undisturbed_run g r 0 = True"
| "undisturbed_run g r (Suc n) =
     (undisturbed g r \<and>
      (case generate_word g r of
         Inl e \<Rightarrow> False
       | Inr (w, g', r') \<Rightarrow> undisturbed_run g' r' n))"

text \<open>
  A generator of the finished worked example with limit 2 after the four calls that
  returned \<open>x y z x\<close>, and the same generator one call earlier.
\<close>

definition forced_generator :: "string output_generator" where
  "forced_generator =
     \<lparr>first_words = first_words worked_example_finished,
      prev_prev = Some ''z'', prev = Some ''x'',
      refresh_limit = 2, refresh_cnt = 0, prev_4 = Some ''x'', prev_3 = Some ''y''\<rparr>"

definition greedy_generator :: "string output_generator" where
  "greedy_generator =
     \<lparr>first_words = first_words worked_example_finished,
      prev_prev = Some ''y'', prev = Some ''z'',
      refresh_limit = 2, refresh_cnt = 1, prev_4 = None, prev_3 = Some ''x''\<rparr>"

section \<open>finish never fails and equals its closed form\<close>

lemma pick_below: "\<forall>c\<in>set cs. c < b \<Longrightarrow> pick b pv p cs = (b, pv)"
  by (induction cs arbitrary: p) auto

lemma pick_range: "pick b pv p cs = (b', Some j) \<Longrightarrow> pv = Some j \<or> (p \<le> j \<and> j < p + length cs)"
  by (induction cs arbitrary: b pv p) (fastforce split: if_splits)+

lemma pick_snd_range: "snd (pick b None 0 cs) = Some j \<Longrightarrow> j < length cs"
  using pick_range[of b None 0 cs "fst (pick b None 0 cs)" j] by (cases "pick b None 0 cs") auto

lemma pick_char:
  "\<exists>c\<in>set cs. b \<le> c \<Longrightarrow>
   \<exists>j<length cs. pick b pv p cs = (cs ! j, Some (p + j)) \<and> b \<le> cs ! j \<and>
      (\<forall>c\<in>set cs. c \<le> cs ! j) \<and> (\<forall>k<length cs. j < k \<longrightarrow> cs ! k < cs ! j)"
proof (induction cs arbitrary: b pv p)
  case Nil
  then show ?case by simp
next
  case (Cons c cs)
  show ?case
  proof (cases "b \<le> c")
    case True
    show ?thesis
    proof (cases "\<exists>d\<in>set cs. c \<le> d")
      case True
      from Cons.IH[OF True, of "Some p" "Suc p"] obtain j where j: "j < length cs"
        "pick c (Some p) (Suc p) cs = (cs ! j, Some (Suc p + j))" "c \<le> cs ! j"
        "\<forall>d\<in>set cs. d \<le> cs ! j" "\<forall>k<length cs. j < k \<longrightarrow> cs ! k < cs ! j" by blast
      show ?thesis
        apply (rule exI[of _ "Suc j"])
        using j \<open>b \<le> c\<close> by (auto simp: less_Suc_eq_0_disj)
    next
      case False
      then have "pick c (Some p) (Suc p) cs = (c, Some p)"
        by (intro pick_below) auto
      moreover from False have "\<forall>k<length cs. cs ! k < c"
        by (meson nth_mem not_le)
      ultimately show ?thesis
        apply (intro exI[of _ 0])
        using \<open>b \<le> c\<close> False by (auto simp: less_Suc_eq_0_disj)
    qed
  next
    case False
    then have "\<exists>d\<in>set cs. b \<le> d" using Cons.prems by auto
    from Cons.IH[OF this, of pv "Suc p"] obtain j where j: "j < length cs"
        "pick b pv (Suc p) cs = (cs ! j, Some (Suc p + j))" "b \<le> cs ! j"
        "\<forall>d\<in>set cs. d \<le> cs ! j" "\<forall>k<length cs. j < k \<longrightarrow> cs ! k < cs ! j" by blast
    show ?thesis
      apply (rule exI[of _ "Suc j"])
      using j False by (auto simp: less_Suc_eq_0_disj)
  qed
qed

lemma scan_trigrams_pick:
  "p + length ns \<le> Suc n \<Longrightarrow>
   scan_trigrams (b, pv, (p, n)) ns =
     Inr (fst (pick b pv p (map cnt ns)), snd (pick b pv p (map cnt ns)), (p + length ns, n))"
  by (induction ns arbitrary: b pv p) (auto simp: update_choice_def next_node_def)

lemma child_finish:
  "(case scan_trigrams (-1, None, lagging_iter xs) xs of
      Inl e \<Rightarrow> Inl e
    | Inr trigram_choice \<Rightarrow> move_next_to_head xs (fst (snd trigram_choice))) = Inr (promoted xs)"
proof -
  have "\<And>j. snd (pick (-1) None 0 (map cnt xs)) = Some j \<Longrightarrow> j < length xs"
    using pick_snd_range by fastforce
  then show ?thesis
    by (auto simp: scan_trigrams_pick lagging_iter_def move_next_to_head_def promoted_def
        split: option.splits prod.splits)
qed

lemma scan_bigrams_pick:
  "p + length ns \<le> Suc n \<Longrightarrow>
   scan_bigrams (b, pv, (p, n)) ns =
     Inr ((fst (pick b pv p (map cnt ns)), snd (pick b pv p (map cnt ns)), (p + length ns, n)),
          map (\<lambda>n. n\<lparr>child := promoted (child n)\<rparr>) ns)"
proof (induction ns arbitrary: b pv p)
  case Nil
  then show ?case by simp
next
  case (Cons x ns)
  have c: "scan_trigrams (-1, None, lagging_iter (child x)) (child x) = Inr tc \<Longrightarrow>
        move_next_to_head (child x) (fst (snd tc)) = Inr (promoted (child x))" for tc
    using child_finish[of "child x"] by simp
  have d: "\<exists>tc. scan_trigrams (-1, None, lagging_iter (child x)) (child x) = Inr tc"
    by (simp add: scan_trigrams_pick lagging_iter_def)
  from Cons.prems have "Suc p + length ns \<le> Suc n" by simp
  note IH = Cons.IH[OF this]
  from d obtain tc where tc: "scan_trigrams (-1, None, lagging_iter (child x)) (child x) = Inr tc"
    by blast
  show ?case using Cons.prems
    by (simp add: update_choice_def next_node_def tc c[OF tc] IH)
qed

lemma finish_first_word_eq: "finish_first_word u = Inr (finished_list u)"
proof -
  have "\<And>j. snd (pick (-1) None 0 (map cnt (head u))) = Some j \<Longrightarrow> j < length (head u)"
    using pick_snd_range by fastforce
  then show ?thesis
    by (auto simp: finish_first_word_def scan_bigrams_pick lagging_iter_def move_next_to_head_def
        finished_list_def promoted_def o_def split: option.splits prod.splits)
qed

lemma finish_values_eq: "finish_values fw = Inr (map (\<lambda>(w, u). (w, finished_list u)) fw)"
  by (induction fw) (auto simp: finish_first_word_eq)

lemma finish_eq:
  "finish m = Inr (m\<lparr>first_words := map (\<lambda>(w, u). (w, finished_list u)) (first_words m)\<rparr>)"
  by (simp add: finish_def finish_values_eq)

section \<open>Properties of a promoted list\<close>

lemma promoted_cases:
  "promoted xs = xs \<or> (\<exists>j<length xs. 0 < j \<and> promoted xs = xs ! j # take j xs @ drop (Suc j) xs)"
proof (cases "snd (pick (-1) None 0 (map cnt xs))")
  case None
  then show ?thesis by (simp add: promoted_def)
next
  case (Some j)
  then have "j < length xs" using pick_snd_range by fastforce
  with Some show ?thesis by (auto simp: promoted_def)
qed

lemma mset_move: "j < length xs \<Longrightarrow> mset (xs ! j # take j xs @ drop (Suc j) xs) = mset xs"
proof -
  assume "j < length xs"
  then have "xs = take j xs @ xs ! j # drop (Suc j) xs" by (rule id_take_nth_drop)
  then have "mset xs = mset (take j xs @ xs ! j # drop (Suc j) xs)" by simp
  then show ?thesis by simp
qed

lemma mset_promoted: "mset (promoted xs) = mset xs"
  using promoted_cases[of xs] mset_move[of _ xs] by metis

lemma set_promoted: "set (promoted xs) = set xs"
  using mset_promoted[of xs] by (metis set_mset_mset)

lemma length_promoted: "length (promoted xs) = length xs"
  using mset_promoted[of xs] by (metis size_mset)

lemma promoted_Nil [simp]: "promoted [] = []"
  by (simp add: promoted_def)

lemma promoted_char:
  assumes "xs \<noteq> []" "\<forall>x\<in>set xs. 0 \<le> cnt x"
  shows "\<exists>j<length xs. promoted xs = xs ! j # take j xs @ drop (Suc j) xs \<and>
           (\<forall>x\<in>set xs. cnt x \<le> cnt (xs ! j)) \<and>
           (\<forall>k<length xs. j < k \<longrightarrow> cnt (xs ! k) < cnt (xs ! j))"
proof -
  from assms have "\<exists>c\<in>set (map cnt xs). -1 \<le> c"
    by (cases xs) auto
  from pick_char[OF this, of None 0] obtain j where j: "j < length xs"
    "pick (-1) None 0 (map cnt xs) = (map cnt xs ! j, Some j)"
    "\<forall>c\<in>set (map cnt xs). c \<le> map cnt xs ! j"
    "\<forall>k<length (map cnt xs). j < k \<longrightarrow> map cnt xs ! k < map cnt xs ! j"
    by auto
  have "promoted xs = xs ! j # take j xs @ drop (Suc j) xs"
  proof (cases j)
    case 0
    with assms(1) j(2) show ?thesis
      by (cases xs) (auto simp: promoted_def)
  next
    case (Suc i)
    with j(2) show ?thesis by (simp add: promoted_def)
  qed
  with j show ?thesis by (intro exI[of _ j]) auto
qed


section \<open>finish only reorders\<close>

lemma mset_map_promoted: "mset (map f (promoted xs)) = mset (map f xs)"
proof -
  have "mset (map f (promoted xs)) = image_mset f (mset (promoted xs))" by simp
  also have "\<dots> = image_mset f (mset xs)" by (simp only: mset_promoted)
  finally show ?thesis by simp
qed

lemma same_entries_finished: "same_entries u (finished_list u)"
proof -
  have "entry (n\<lparr>child := promoted (child n)\<rparr>) = entry n" for n :: "'a bigram_node"
    by (simp add: entry_def mset_promoted)
  then have "mset (map entry (promoted (map (\<lambda>n. n\<lparr>child := promoted (child n)\<rparr>) (head u))))
      = mset (map entry (head u))"
    by (simp add: mset_promoted image_mset.compositionality o_def)
  then show ?thesis
    by (simp add: same_entries_def finished_list_def)
qed

text \<open>
  C8: \<^verbatim>\<open>finish\<close> always returns, and it changes nothing but the order of the entries within
  their lists: the keys of the dict and their order are the same, under every key the count
  of the top-level list is the same, its second-level list holds the same entries (same
  word, same count) and each of these has the same third-level entries (same word, same
  count); the two remembered words are untouched.
\<close>

theorem finish_frame:
  "\<exists>m'. finish m = Inr m' \<and>
        map fst (first_words m') = map fst (first_words m) \<and>
        list_all2 same_entries (map snd (first_words m)) (map snd (first_words m')) \<and>
        prev_prev m' = prev_prev m \<and> prev m' = prev m"
  by (simp add: finish_eq o_def case_prod_unfold list_all2_map1 list_all2_map2
      list_all2_same same_entries_finished)

section \<open>Training builds the lists of its countings\<close>

lemma getitem_None: "getitem xs w = None \<longleftrightarrow> w \<notin> data ` set xs"
  by (induction xs) auto

lemma getitem_Some: "getitem xs w = Some i \<Longrightarrow> i < length xs \<and> data (xs ! i) = w"
  by (induction xs arbitrary: i) (auto split: if_splits)

lemma map_upd_distinct:
  "distinct ks \<Longrightarrow> i < length ks \<Longrightarrow> (map f ks)[i := v] = map (f(ks ! i := v)) ks"
  by (rule nth_equalityI) (auto simp: nth_list_update nth_eq_iff_index_eq)

lemma data_tlist [simp]: "map data (tlist obs) = remdups (rev obs)"
  by (simp add: tlist_def o_def)

lemma data_set_tlist: "data ` set (tlist obs) = set obs"
  using data_tlist[of obs] by (metis set_map set_remdups set_rev)

lemma count_trigram_tlist: "count_trigram (tlist obs) w = tlist (obs @ [w])"
proof (cases "getitem (tlist obs) w")
  case None
  then have "w \<notin> set obs"
    by (simp add: getitem_None data_set_tlist)
  then show ?thesis using None
    by (auto simp: count_trigram_def prepend_def tlist_def)
next
  case (Some i)
  let ?ks = "remdups (rev obs)"
  from getitem_Some[OF Some] have i1: "i < length (tlist obs)" and i2: "data (tlist obs ! i) = w"
    by auto
  from i1 have i3: "i < length ?ks" by (simp add: tlist_def)
  with i2 have i: "i < length ?ks" "?ks ! i = w" by (simp_all add: tlist_def)
  then have w: "w \<in> set obs" by (metis nth_mem set_remdups set_rev)
  have "count_trigram (tlist obs) w = (tlist obs)[i := (tlist obs ! i)\<lparr>cnt := cnt (tlist obs ! i) + 1\<rparr>]"
    using Some by (simp add: count_trigram_def)
  also have "\<dots> = tlist (obs @ [w])"
    using i w unfolding tlist_def
    by (subst map_upd_distinct) (auto simp: tlist_def)
  finally show ?thesis .
qed


lemma followers2_append [simp]:
  "followers2 (B @ [(a, p)]) x = (if x = a then followers2 B x @ [p] else followers2 B x)"
  by (simp add: followers2_def)

lemma followers3_append [simp]:
  "followers3 (T @ [(a, p, w)]) x y =
     (if x = a \<and> y = p then followers3 T x y @ [w] else followers3 T x y)"
  by (simp add: followers3_def)

lemma followers2_empty: "a \<notin> fst ` set B \<Longrightarrow> followers2 B a = []"
  by (induction B) (auto simp: followers2_def)

lemma followers3_empty:
  "(\<lambda>x. (fst x, fst (snd x))) ` set T \<subseteq> set B \<Longrightarrow> p \<notin> set (followers2 B a) \<Longrightarrow>
   followers3 T a p = []"
proof -
  assume sub: "(\<lambda>x. (fst x, fst (snd x))) ` set T \<subseteq> set B" and p: "p \<notin> set (followers2 B a)"
  have "\<not> (fst x = a \<and> fst (snd x) = p)" if "x \<in> set T" for x
  proof
    assume "fst x = a \<and> fst (snd x) = p"
    with that sub have "(a, p) \<in> set B" by force
    then have "p \<in> set (followers2 B a)" by (force simp: followers2_def)
    with p show False by simp
  qed
  then show ?thesis by (simp add: followers3_def filter_empty_conv)
qed

lemma data_blist [simp]: "map data (blist B T a) = remdups (rev (followers2 B a))"
  by (simp add: blist_def o_def)

lemma data_set_blist: "data ` set (blist B T a) = set (followers2 B a)"
  using data_blist[of B T a] by (metis set_map set_remdups set_rev)

lemma blist_new:
  "p \<notin> set (followers2 B a) \<Longrightarrow>
   blist (B @ [(a, p)]) T a =
     \<lparr>cnt = 1, data = p, child = tlist (followers3 T a p)\<rparr> # blist B T a"
  by (auto simp: blist_def)

lemma count_bigram_blist:
  assumes e: "p \<notin> set (followers2 B a) \<Longrightarrow> followers3 T a p = []"
    and h: "head u = blist B T a"
  shows "\<exists>i. count_bigram u p = (u\<lparr>head := blist (B @ [(a, p)]) T a\<rparr>, i) \<and>
             i < length (remdups (rev (followers2 (B @ [(a, p)]) a))) \<and>
             remdups (rev (followers2 (B @ [(a, p)]) a)) ! i = p"
proof (cases "getitem (blist B T a) p")
  case None
  then have n: "p \<notin> set (followers2 B a)"
    by (simp add: getitem_None data_set_blist)
  then have "count_bigram u p = (u\<lparr>head := blist (B @ [(a, p)]) T a\<rparr>, 0)"
    using None e h by (simp add: count_bigram_def prepend_def blist_new tlist_def)
  with n show ?thesis by simp
next
  case (Some i)
  let ?ks = "remdups (rev (followers2 B a))"
  from getitem_Some[OF Some] have i1: "i < length (blist B T a)" and i2: "data (blist B T a ! i) = p"
    by auto
  from i1 have i3: "i < length ?ks" by (simp add: blist_def)
  with i2 have i: "i < length ?ks" "?ks ! i = p" by (simp_all add: blist_def)
  then have w: "p \<in> set (followers2 B a)" by (metis nth_mem set_remdups set_rev)
  have "(blist B T a)[i := (blist B T a ! i)\<lparr>cnt := cnt (blist B T a ! i) + 1\<rparr>]
      = blist (B @ [(a, p)]) T a"
    using i w unfolding blist_def
    by (subst map_upd_distinct) (auto simp: blist_def)
  then have "count_bigram u p = (u\<lparr>head := blist (B @ [(a, p)]) T a\<rparr>, i)"
    using Some h by (simp add: count_bigram_def)
  with i w show ?thesis by simp
qed

lemma child_update_blist:
  assumes i: "i < length (remdups (rev (followers2 B a)))" "remdups (rev (followers2 B a)) ! i = p"
  shows "(blist B T a)[i := (blist B T a ! i)\<lparr>child := count_trigram (child (blist B T a ! i)) w\<rparr>]
     = blist B (T @ [(a, p, w)]) a"
  using i unfolding blist_def
  by (subst map_upd_distinct) (auto simp: blist_def count_trigram_tlist)

lemma count_unigram_repr:
  assumes "represents fw U B T"
  shows "count_unigram fw a =
     (AList.update a \<lparr>cnt = int (count_list U a) + 1, head = blist B T a\<rparr> fw,
      \<lparr>cnt = int (count_list U a) + 1, head = blist B T a\<rparr>)"
proof (cases "a \<in> set U")
  case True
  with assms have "map_of fw a = Some (ulist U B T a)" by (simp add: represents_def)
  then show ?thesis by (simp add: count_unigram_def ulist_def Let_def)
next
  case False
  with assms have "map_of fw a = None" and "a \<notin> fst ` set B" by (auto simp: represents_def)
  then show ?thesis using False by (simp add: count_unigram_def followers2_empty blist_def Let_def)
qed

lemma represents_update:
  assumes r: "represents fw U B T"
    and s1: "fst ` set B' \<subseteq> set (U @ [a])"
    and s2: "(\<lambda>x. (fst x, fst (snd x))) ` set T' \<subseteq> set B'"
    and same: "\<And>x. x \<noteq> a \<Longrightarrow> blist B' T' x = blist B T x"
  shows "represents (AList.update a (ulist (U @ [a]) B' T' a) fw) (U @ [a]) B' T'"
proof -
  have "ulist (U @ [a]) B' T' x = ulist U B T x" if "x \<noteq> a" for x
    using that same by (simp add: ulist_def)
  then show ?thesis
    using r s1 s2 unfolding represents_def
    by (auto simp: update_conv' distinct_update)
qed


lemma consume_word_repr:
  assumes r: "represents (first_words m) U B T"
    and pp: "prev_prev m = Some pp" and p: "prev m = Some p"
  shows "\<exists>m'. consume_word m w = Inr m' \<and>
           represents (first_words m') (U @ [pp]) (B @ [(pp, p)]) (T @ [(pp, p, w)]) \<and>
           prev_prev m' = Some p \<and> prev m' = Some w"
proof -
  let ?B = "B @ [(pp, p)]" and ?T = "T @ [(pp, p, w)]"
  let ?u0 = "\<lparr>cnt = int (count_list U pp) + 1, head = blist B T pp\<rparr>"
  let ?u2 = "\<lparr>cnt = int (count_list U pp) + 1, head = blist ?B ?T pp\<rparr>"
  from r have sub: "(\<lambda>x. (fst x, fst (snd x))) ` set T \<subseteq> set B" "fst ` set B \<subseteq> set U"
    by (simp_all add: represents_def)
  have cu: "count_unigram (first_words m) pp = (AList.update pp ?u0 (first_words m), ?u0)"
    by (rule count_unigram_repr[OF r])
  obtain i where cb: "count_bigram ?u0 p = (?u0\<lparr>head := blist ?B T pp\<rparr>, i)"
    and i: "i < length (remdups (rev (followers2 ?B pp)))" "remdups (rev (followers2 ?B pp)) ! i = p"
    using count_bigram_blist[of p B pp T ?u0] followers3_empty[OF sub(1)] by auto
  have ch: "(blist ?B T pp)[i := (blist ?B T pp ! i)\<lparr>child := count_trigram (child (blist ?B T pp ! i)) w\<rparr>]
     = blist ?B ?T pp"
    by (rule child_update_blist[OF i])
  have u2: "?u2 = ulist (U @ [pp]) ?B ?T pp" by (simp add: ulist_def)
  have "consume_word m w =
      Inr (m\<lparr>first_words := AList.update pp ?u2 (first_words m),
             prev_prev := Some p, prev := Some w\<rparr>)"
    unfolding consume_word_def using pp p
    by (simp add: cu cb ch)
  moreover have "represents (AList.update pp ?u2 (first_words m)) (U @ [pp]) ?B ?T"
    unfolding u2
  proof (rule represents_update[OF r])
    show "fst ` set ?B \<subseteq> set (U @ [pp])" using sub by auto
    show "(\<lambda>x. (fst x, fst (snd x))) ` set ?T \<subseteq> set ?B" using sub by auto
    show "blist ?B ?T x = blist B T x" if "x \<noteq> pp" for x
      using that by (simp add: blist_def)
  qed
  ultimately show ?thesis by simp
qed

lemma end_input_repr:
  assumes r: "represents (first_words m) U B T"
    and pp: "prev_prev m = Some pp" and p: "prev m = Some p"
  shows "\<exists>m'. end_input m = Inr m' \<and>
           represents (first_words m') (U @ [pp, p]) (B @ [(pp, p)]) T \<and>
           prev_prev m' = Some pp \<and> prev m' = Some p"
proof -
  let ?B = "B @ [(pp, p)]" and ?U = "U @ [pp]"
  let ?u0 = "\<lparr>cnt = int (count_list U pp) + 1, head = blist B T pp\<rparr>"
  let ?fw1 = "AList.update pp (ulist ?U ?B T pp) (first_words m)"
  from r have sub: "(\<lambda>x. (fst x, fst (snd x))) ` set T \<subseteq> set B" "fst ` set B \<subseteq> set U"
    by (simp_all add: represents_def)
  have cu: "count_unigram (first_words m) pp = (AList.update pp ?u0 (first_words m), ?u0)"
    by (rule count_unigram_repr[OF r])
  obtain i where cb: "count_bigram ?u0 p = (?u0\<lparr>head := blist ?B T pp\<rparr>, i)"
    using count_bigram_blist[of p B pp T ?u0] followers3_empty[OF sub(1)] by auto
  have ux: "\<lparr>cnt = int (count_list U pp) + 1, head = blist ?B T pp\<rparr> = ulist ?U ?B T pp"
    by (simp add: ulist_def)
  have r1: "represents ?fw1 ?U ?B T"
  proof (rule represents_update[OF r])
    show "fst ` set ?B \<subseteq> set (U @ [pp])" using sub by auto
    show "(\<lambda>x. (fst x, fst (snd x))) ` set T \<subseteq> set ?B" using sub by auto
    show "blist ?B T x = blist B T x" if "x \<noteq> pp" for x
      using that by (simp add: blist_def)
  qed
  let ?u1 = "\<lparr>cnt = int (count_list ?U p) + 1, head = blist ?B T p\<rparr>"
  have cu1: "count_unigram ?fw1 p = (AList.update p ?u1 ?fw1, ?u1)"
    by (rule count_unigram_repr[OF r1])
  have u1: "?u1 = ulist (?U @ [p]) ?B T p" by (simp add: ulist_def)
  have "end_input m = Inr (m\<lparr>first_words := AList.update p ?u1 ?fw1\<rparr>)"
    unfolding end_input_def using pp p
    by (simp add: cu cb ux cu1 del: count_list.simps)
  moreover have "represents (AList.update p ?u1 ?fw1) (?U @ [p]) ?B T"
    unfolding u1
  proof (rule represents_update[OF r1])
    show "fst ` set ?B \<subseteq> set (?U @ [p])" using sub by auto
    show "(\<lambda>x. (fst x, fst (snd x))) ` set T \<subseteq> set ?B" using sub by auto
  qed simp
  ultimately show ?thesis using pp p by simp
qed

lemma cycle_repr:
  "represents (first_words m) U B T \<Longrightarrow> prev_prev m = Some pp \<Longrightarrow> prev m = Some p \<Longrightarrow>
   \<exists>m'. (case consume_words m ws of Inl e \<Rightarrow> Inl e | Inr m2 \<Rightarrow> end_input m2) = Inr m' \<and>
        represents (first_words m') (U @ cycle_unigrams pp p ws) (B @ cycle_bigrams pp p ws)
          (T @ cycle_trigrams pp p ws)"
proof (induction ws arbitrary: m U B T pp p)
  case Nil
  from end_input_repr[OF Nil] show ?case by auto
next
  case (Cons w ws)
  from consume_word_repr[OF Cons.prems, of w] obtain m1 where m1:
    "consume_word m w = Inr m1"
    "represents (first_words m1) (U @ [pp]) (B @ [(pp, p)]) (T @ [(pp, p, w)])"
    "prev_prev m1 = Some p" "prev m1 = Some w" by blast
  from Cons.IH[OF m1(2,3,4)] m1(1) show ?case by simp
qed

lemma training_cycle_repr:
  assumes "represents (first_words m) U B T"
  shows "\<exists>m'. training_cycle m (a, b, ws) = Inr m' \<and>
        represents (first_words m') (U @ cycle_unigrams a b ws) (B @ cycle_bigrams a b ws)
          (T @ cycle_trigrams a b ws)"
  using cycle_repr[of "start_input m a b" U B T a b ws] assms
  by (simp add: training_cycle_def start_input_def)

lemma train_repr:
  "represents (first_words m) U B T \<Longrightarrow>
   \<exists>m'. train m ds = Inr m' \<and>
        represents (first_words m') (U @ counted_unigrams ds) (B @ counted_bigrams ds)
          (T @ counted_trigrams ds)"
proof (induction ds arbitrary: m U B T)
  case Nil
  then show ?case by (simp add: counted_unigrams_def counted_bigrams_def counted_trigrams_def)
next
  case (Cons d ds)
  obtain a b ws where d: "d = (a, b, ws)" by (cases d) auto
  from training_cycle_repr[OF Cons.prems, of a b ws] obtain m1 where m1:
    "training_cycle m (a, b, ws) = Inr m1"
    "represents (first_words m1) (U @ cycle_unigrams a b ws) (B @ cycle_bigrams a b ws)
          (T @ cycle_trigrams a b ws)" by blast
  from Cons.IH[OF m1(2)] m1(1) d show ?case
    by (simp add: counted_unigrams_def counted_bigrams_def counted_trigrams_def)
qed

lemma represents_empty: "represents [] [] [] []"
  by (simp add: represents_def)

lemma train_represents:
  "\<exists>m. train TrigramModel ds = Inr m \<and>
       represents (first_words m) (counted_unigrams ds) (counted_bigrams ds) (counted_trigrams ds)"
  using train_repr[of TrigramModel "[]" "[]" "[]" ds] represents_empty
  by (simp add: TrigramModel_def)

lemma trained_represents:
  "train TrigramModel ds = Inr m \<Longrightarrow>
   represents (first_words m) (counted_unigrams ds) (counted_bigrams ds) (counted_trigrams ds)"
  using train_represents[of ds] by auto

section \<open>The head of a finished list holds the greatest count\<close>

lemmas train_defs = training_cycle_def start_input_def consume_word_def end_input_def
  count_unigram_def count_bigram_def count_trigram_def prepend_def TrigramModel_def Let_def

lemma train_worked_example: "train TrigramModel [worked_example] = Inr worked_example_model"
  by (simp add: worked_example_def worked_example_model_def train_defs)

lemma represents_member:
  "represents fw U B T \<Longrightarrow> (a, u) \<in> set fw \<Longrightarrow> u = ulist U B T a"
  unfolding represents_def
  by (metis map_of_eq_Some_iff option.distinct(1) option.inject)




lemma child_blist: "n \<in> set (blist B T a) \<Longrightarrow> child n = tlist (followers3 T a (data n))"
  by (auto simp: blist_def)




section \<open>Calling finish twice\<close>

lemmas finish_defs = finish_def finish_first_word_def move_next_to_head_def
  update_choice_def next_node_def lagging_iter_def










section \<open>Ties go to the entry created first\<close>

lemma last_remdups: "zs \<noteq> [] \<Longrightarrow> last (remdups zs) = last zs"
proof (induction zs)
  case Nil
  then show ?case by simp
next
  case (Cons z zs)
  show ?case
  proof (cases "zs = []")
    case True
    then show ?thesis by simp
  next
    case False
    then have "remdups zs \<noteq> []" by simp
    with Cons.IH[OF False] False show ?thesis by simp
  qed
qed

lemma hd_filter_last_remdups:
  assumes "filter P obs \<noteq> []"
  shows "hd (filter P obs) = last (filter P (remdups (rev obs)))"
proof -
  have "filter P (remdups (rev obs)) = remdups (rev (filter P obs))"
    by (simp add: remdups_filter rev_filter)
  moreover have "last (remdups (rev (filter P obs))) = last (rev (filter P obs))"
    using assms by (intro last_remdups) simp
  moreover have "last (rev (filter P obs)) = hd (filter P obs)"
    using assms by (simp add: last_rev)
  ultimately show ?thesis by simp
qed

lemma last_filter_nth:
  assumes "j < length ks" "P (ks ! j)" "\<forall>k<length ks. j < k \<longrightarrow> \<not> P (ks ! k)"
  shows "last (filter P ks) = ks ! j"
proof -
  have "\<not> P y" if "y \<in> set (drop (Suc j) ks)" for y
  proof -
    from that obtain i where "i < length (drop (Suc j) ks)" "drop (Suc j) ks ! i = y"
      by (auto simp: in_set_conv_nth)
    then have "Suc j + i < length ks" "y = ks ! (Suc j + i)" using assms(1) by auto
    with assms(3) show ?thesis by auto
  qed
  then have "filter P (drop (Suc j) ks) = []" by (simp add: filter_empty_conv)
  moreover have "ks = take j ks @ ks ! j # drop (Suc j) ks"
    using assms(1) by (rule id_take_nth_drop)
  ultimately have "filter P ks = filter P (take j ks) @ [ks ! j]"
    using assms(2) by (metis filter.simps(2) filter_append)
  then show ?thesis by simp
qed

lemma mset_remdups_rev: "mset (remdups (rev obs)) = mset (remdups obs)"
  by (metis distinct_remdups set_eq_iff_mset_eq_distinct set_remdups set_rev)

lemma promoted_holds_counts:
  fixes xs :: "('w, 'a) node_scheme list"
  assumes d: "map data xs = remdups (rev obs)"
    and c: "map cnt xs = map (\<lambda>w. int (count_list obs w)) (remdups (rev obs))"
  shows "holds_counts obs (promoted xs)"
proof -
  have "map (\<lambda>n. (data n, cnt n)) xs = zip (map data xs) (map cnt xs)"
    by (simp add: zip_map_map zip_same_conv_map)
  also have "\<dots> = map (\<lambda>w. (w, int (count_list obs w))) (remdups (rev obs))"
    unfolding d c by (simp add: zip_map2 zip_same_conv_map)
  finally have "mset (map (\<lambda>n. (data n, cnt n)) xs) =
      image_mset (\<lambda>w. (w, int (count_list obs w))) (mset (remdups (rev obs)))"
    by simp
  then show ?thesis
    unfolding holds_counts_def mset_map_promoted by (simp add: mset_remdups_rev)
qed

lemma promoted_earliest_head:
  fixes xs :: "('w, 'a) node_scheme list"
  assumes d: "map data xs = remdups (rev obs)"
    and c: "map cnt xs = map (\<lambda>w. int (count_list obs w)) (remdups (rev obs))"
  shows "earliest_head obs (promoted xs)"
proof (cases "xs = []")
  case True
  then show ?thesis by (simp add: earliest_head_def)
next
  case False
  let ?ks = "remdups (rev obs)"
  let ?P = "\<lambda>w. list_all (\<lambda>v. count_list obs v \<le> count_list obs w) obs"
  have len: "length xs = length ?ks" using d by (metis length_map)
  have dk: "data (xs ! k) = ?ks ! k" if "k < length xs" for k
    using d that by (metis nth_map)
  have ck: "cnt (xs ! k) = int (count_list obs (?ks ! k))" if "k < length xs" for k
  proof -
    from that have "cnt (xs ! k) = map cnt xs ! k" by simp
    also have "\<dots> = int (count_list obs (?ks ! k))"
      unfolding c using that len by simp
    finally show ?thesis .
  qed
  have nonneg: "\<forall>x\<in>set xs. 0 \<le> cnt x"
    using ck by (auto simp: in_set_conv_nth)
  from promoted_char[OF False nonneg] obtain j where j: "j < length xs"
    "promoted xs = xs ! j # take j xs @ drop (Suc j) xs"
    "\<forall>x\<in>set xs. cnt x \<le> cnt (xs ! j)"
    "\<forall>k<length xs. j < k \<longrightarrow> cnt (xs ! k) < cnt (xs ! j)" by blast
  have Pj: "?P (?ks ! j)"
  proof -
    have "count_list obs v \<le> count_list obs (?ks ! j)" if "v \<in> set obs" for v
    proof -
      from that have "v \<in> set ?ks" by simp
      then obtain i where i: "i < length ?ks" "?ks ! i = v" unfolding in_set_conv_nth by blast
      with len have "xs ! i \<in> set xs" by simp
      with j(3) have "cnt (xs ! i) \<le> cnt (xs ! j)" by blast
      with i len j(1) show ?thesis by (simp add: ck)
    qed
    then show ?thesis by (simp add: list_all_iff)
  qed
  have nP: "\<not> ?P (?ks ! k)" if "k < length ?ks" "j < k" for k
  proof
    assume "?P (?ks ! k)"
    moreover have "?ks ! j \<in> set obs" using j(1) len by (metis nth_mem set_remdups set_rev)
    ultimately have "count_list obs (?ks ! j) \<le> count_list obs (?ks ! k)"
      by (simp add: list_all_iff)
    moreover from j(4) that len have "cnt (xs ! k) < cnt (xs ! j)" by simp
    ultimately show False using that len j(1) by (simp add: ck)
  qed
  have "last (filter ?P ?ks) = ?ks ! j"
    using j(1) len Pj nP by (intro last_filter_nth) auto
  moreover have "filter ?P obs \<noteq> []"
  proof -
    have "?ks ! j \<in> set obs" using j(1) len by (metis nth_mem set_remdups set_rev)
    with Pj show ?thesis by (auto simp: filter_empty_conv)
  qed
  ultimately have "earliest_best obs = ?ks ! j"
    unfolding earliest_best_def by (simp add: hd_filter_last_remdups)
  then show ?thesis using j(1,2) by (simp add: earliest_head_def dk)
qed

lemma cnt_tlist_map: "map cnt (tlist obs) = map (\<lambda>w. int (count_list obs w)) (remdups (rev obs))"
  by (simp add: tlist_def)

lemma cnt_blist_map:
  "map cnt (blist B T a) =
     map (\<lambda>w. int (count_list (followers2 B a) w)) (remdups (rev (followers2 B a)))"
  by (simp add: blist_def)

lemma earliest_heads_finished:
  assumes "represents fw (counted_unigrams ds) (counted_bigrams ds) (counted_trigrams ds)"
  shows "earliest_heads ds (map (\<lambda>(w, u). (w, finished_list u)) fw)"
proof -
  let ?B = "counted_bigrams ds" and ?T = "counted_trigrams ds"
  let ?g = "\<lambda>n::'a bigram_node. n\<lparr>child := promoted (child n)\<rparr>"
  have "holds_counts (followers2 ?B a) (head (finished_list u)) \<and>
        earliest_head (followers2 ?B a) (head (finished_list u)) \<and>
        list_all (\<lambda>n. holds_counts (followers3 ?T a (data n)) (child n) \<and>
                     earliest_head (followers3 ?T a (data n)) (child n)) (head (finished_list u))"
    if "(a, u) \<in> set fw" for a u
  proof -
    from represents_member[OF assms that] have h: "head u = blist ?B ?T a"
      by (simp add: ulist_def)
    have d: "map data (map ?g (head u)) = remdups (rev (followers2 ?B a))"
      using h by (simp add: o_def blist_def)
    have c: "map cnt (map ?g (head u)) =
        map (\<lambda>w. int (count_list (followers2 ?B a) w)) (remdups (rev (followers2 ?B a)))"
      using h by (simp add: o_def blist_def)
    have 1: "holds_counts (followers2 ?B a) (head (finished_list u))"
      unfolding finished_list_def using promoted_holds_counts[OF d c] by simp
    have 2: "earliest_head (followers2 ?B a) (head (finished_list u))"
      unfolding finished_list_def using promoted_earliest_head[OF d c] by simp
    have 3: "holds_counts (followers3 ?T a (data n)) (child n) \<and>
             earliest_head (followers3 ?T a (data n)) (child n)"
      if "n \<in> set (head (finished_list u))" for n
    proof -
      from that obtain n0 where n0: "n0 \<in> set (head u)" "n = n0\<lparr>child := promoted (child n0)\<rparr>"
        by (auto simp: finished_list_def set_promoted)
      from n0(1) h have ch: "child n0 = tlist (followers3 ?T a (data n0))"
        by (simp add: child_blist)
      show ?thesis
        using promoted_holds_counts[OF data_tlist cnt_tlist_map, of "followers3 ?T a (data n0)"]
          promoted_earliest_head[OF data_tlist cnt_tlist_map, of "followers3 ?T a (data n0)"]
        by (simp add: n0(2) ch)
    qed
    from 1 2 3 show ?thesis by (simp add: list_all_iff)
  qed
  then show ?thesis
    by (auto simp: earliest_heads_def list_all_iff)
qed

text \<open>
  C2: training on any documents returns a model, and one call of \<^verbatim>\<open>finish\<close> on it returns
  a model in which
  every second-level and every third-level list holds one entry per word counted in its
  context, with the number of its countings as count, and has at its head, among the
  entries of greatest count, the one that was created earliest: the entry of the word that
  was counted first in that context.
\<close>

theorem finish_earliest_head:
  "\<exists>m m'. train TrigramModel ds = Inr m \<and> finish m = Inr m' \<and>
          earliest_heads ds (first_words m')"
proof -
  from train_represents[of ds] obtain m where m: "train TrigramModel ds = Inr m"
    "represents (first_words m) (counted_unigrams ds) (counted_bigrams ds) (counted_trigrams ds)"
    by blast
  from earliest_heads_finished[OF m(2)] m(1) show ?thesis by (simp add: finish_eq)
qed


lemma finish_worked_example: "finish worked_example_model = Inr worked_example_finished"
  by (simp add: worked_example_model_def worked_example_finished_def finish_defs)

theorem finish_earliest_head_witness:
  "train TrigramModel [worked_example] = Inr worked_example_model \<and>
   finish worked_example_model = Inr worked_example_finished \<and>
   earliest_heads [worked_example] (first_words worked_example_finished) \<and>
   followers3 (counted_trigrams [worked_example]) ''x'' ''y'' = [''z'', ''w''] \<and>
   earliest_best [''z'', ''w''] = ''z'' \<and>
   map data (trigrams (first_words worked_example_finished) ''x'' ''y'') = [''z'', ''w'']"
proof -
  from finish_earliest_head[of "[worked_example]"] train_worked_example finish_worked_example
  have "earliest_heads [worked_example] (first_words worked_example_finished)" by auto
  moreover have "followers3 (counted_trigrams [worked_example]) ''x'' ''y'' = [''z'', ''w'']"
    by (simp add: counted_trigrams_def worked_example_def followers3_def)
  moreover have "earliest_best [''z'', ''w''] = ''z''"
    by (simp add: earliest_best_def)
  moreover have "map data (trigrams (first_words worked_example_finished) ''x'' ''y'') = [''z'', ''w'']"
    by (simp add: worked_example_finished_def trigrams_def bigrams_def)
  ultimately show ?thesis using train_worked_example finish_worked_example by simp
qed

section \<open>What end_input counts\<close>

lemma getitem_same_data: "map data ys = map data xs \<Longrightarrow> getitem ys b = getitem xs b"
proof (induction xs arbitrary: ys)
  case Nil
  then show ?case by simp
next
  case (Cons x xs)
  then obtain y ys' where "ys = y # ys'" by (cases ys) auto
  with Cons show ?case by auto
qed

lemma getitem_update:
  "i < length xs \<Longrightarrow> data n = data (xs ! i) \<Longrightarrow> getitem (xs[i := n]) b = getitem xs b"
  by (rule getitem_same_data) (simp add: map_update list_update_same_conv)

lemma getitem_unique:
  "getitem xs b = Some k \<Longrightarrow> getitem xs p = Some i \<Longrightarrow> (k = i) = (b = p)"
  using getitem_Some by (metis option.inject)

lemma count_bigram_effect:
  assumes "count_bigram u p = (u', i)"
  shows "cnt u' = cnt u"
    and "(case getitem (head u') b of None \<Rightarrow> 0 | Some k \<Rightarrow> cnt (head u' ! k)) =
         (case getitem (head u) b of None \<Rightarrow> 0 | Some k \<Rightarrow> cnt (head u ! k)) + (if b = p then 1 else 0)"
    and "(case getitem (head u') b of None \<Rightarrow> [] | Some k \<Rightarrow> child (head u' ! k)) =
         (case getitem (head u) b of None \<Rightarrow> [] | Some k \<Rightarrow> child (head u ! k))"
    and "set (map data (head u')) = insert p (set (map data (head u)))"
proof -
  show "cnt u' = cnt u"
    using assms by (auto simp: count_bigram_def prepend_def split: option.splits)
  show "(case getitem (head u') b of None \<Rightarrow> 0 | Some k \<Rightarrow> cnt (head u' ! k)) =
         (case getitem (head u) b of None \<Rightarrow> 0 | Some k \<Rightarrow> cnt (head u ! k)) + (if b = p then 1 else 0)"
  proof (cases "getitem (head u) p")
    case None
    then have "head u' = \<lparr>cnt = 1, data = p, child = []\<rparr> # head u"
      using assms by (auto simp: count_bigram_def prepend_def)
    then show ?thesis using None by (auto split: option.splits)
  next
    case (Some j)
    from getitem_Some[OF Some] have j: "j < length (head u)" "data (head u ! j) = p" by auto
    have h: "head u' = (head u)[j := (head u ! j)\<lparr>cnt := cnt (head u ! j) + 1\<rparr>]"
      using assms Some by (auto simp: count_bigram_def)
    have g: "getitem (head u') b = getitem (head u) b"
      unfolding h using j by (intro getitem_update) auto
    show ?thesis
    proof (cases "getitem (head u) b")
      case None
      with Some g show ?thesis by auto
    next
      case (Some k)
      from getitem_Some[OF Some] have "k < length (head u)" by simp
      with Some g getitem_unique[OF Some \<open>getitem (head u) p = Some j\<close>] j show ?thesis
        by (auto simp: h nth_list_update)
    qed
  qed
  show "(case getitem (head u') b of None \<Rightarrow> [] | Some k \<Rightarrow> child (head u' ! k)) =
         (case getitem (head u) b of None \<Rightarrow> [] | Some k \<Rightarrow> child (head u ! k))"
  proof (cases "getitem (head u) p")
    case None
    then have "head u' = \<lparr>cnt = 1, data = p, child = []\<rparr> # head u"
      using assms by (auto simp: count_bigram_def prepend_def)
    then show ?thesis using None by (auto split: option.splits)
  next
    case (Some j)
    from getitem_Some[OF Some] have j: "j < length (head u)" "data (head u ! j) = p" by auto
    have h: "head u' = (head u)[j := (head u ! j)\<lparr>cnt := cnt (head u ! j) + 1\<rparr>]"
      using assms Some by (auto simp: count_bigram_def)
    have g: "getitem (head u') b = getitem (head u) b"
      unfolding h using j by (intro getitem_update) auto
    show ?thesis
    proof (cases "getitem (head u) b")
      case None
      with g show ?thesis by auto
    next
      case (Some k)
      from getitem_Some[OF Some] have "k < length (head u)" by simp
      with Some g j show ?thesis
        by (cases "k = j") (auto simp: h)
    qed
  qed
  show "set (map data (head u')) = insert p (set (map data (head u)))"
  proof (cases "getitem (head u) p")
    case None
    then have "head u' = \<lparr>cnt = 1, data = p, child = []\<rparr> # head u"
      using assms by (auto simp: count_bigram_def prepend_def)
    then show ?thesis by simp
  next
    case (Some j)
    from getitem_Some[OF Some] have j: "j < length (head u)" "data (head u ! j) = p" by auto
    have h: "head u' = (head u)[j := (head u ! j)\<lparr>cnt := cnt (head u ! j) + 1\<rparr>]"
      using assms Some by (auto simp: count_bigram_def)
    have "map data (head u') = map data (head u)"
      unfolding h using j by (simp add: map_update list_update_same_conv)
    moreover have "p \<in> set (map data (head u))" using j by (metis length_map nth_map nth_mem)
    ultimately show ?thesis by auto
  qed
qed


lemma end_input_pieces:
  assumes pp: "prev_prev m = Some pp" and p: "prev m = Some p"
  obtains u' i where
    "count_bigram ((case map_of (first_words m) pp of None \<Rightarrow> \<lparr>cnt = 0, head = []\<rparr> | Some l \<Rightarrow> l)
        \<lparr>cnt := unigram_count (first_words m) pp + 1\<rparr>) p = (u', i)"
    "end_input m = Inr (m\<lparr>first_words :=
        AList.update p
          ((case map_of (AList.update pp u' (first_words m)) p of
              None \<Rightarrow> \<lparr>cnt = 0, head = []\<rparr> | Some l \<Rightarrow> l)
           \<lparr>cnt := unigram_count (AList.update pp u' (first_words m)) p + 1\<rparr>)
          (AList.update pp u' (first_words m))\<rparr>)"
proof -
  let ?u0 = "(case map_of (first_words m) pp of None \<Rightarrow> \<lparr>cnt = 0, head = []\<rparr> | Some l \<Rightarrow> l)
        \<lparr>cnt := unigram_count (first_words m) pp + 1\<rparr>"
  obtain u' i where cb: "count_bigram ?u0 p = (u', i)" by (cases "count_bigram ?u0 p") auto
  have cu: "count_unigram fw a =
      (AList.update a ((case map_of fw a of None \<Rightarrow> \<lparr>cnt = 0, head = []\<rparr> | Some l \<Rightarrow> l)
         \<lparr>cnt := unigram_count fw a + 1\<rparr>) fw,
       (case map_of fw a of None \<Rightarrow> \<lparr>cnt = 0, head = []\<rparr> | Some l \<Rightarrow> l)
         \<lparr>cnt := unigram_count fw a + 1\<rparr>)" for fw :: "('a \<times> 'a unigram_list) list" and a
    by (simp add: count_unigram_def unigram_count_def Let_def split: option.splits)
  have "end_input m = Inr (m\<lparr>first_words :=
        AList.update p
          ((case map_of (AList.update pp u' (first_words m)) p of
              None \<Rightarrow> \<lparr>cnt = 0, head = []\<rparr> | Some l \<Rightarrow> l)
           \<lparr>cnt := unigram_count (AList.update pp u' (first_words m)) p + 1\<rparr>)
          (AList.update pp u' (first_words m))\<rparr>)"
    unfolding end_input_def using pp p by (simp add: cu cb Let_def)
  with cb show ?thesis by (rule that)
qed

text \<open>
  C7: in every model state whose two remembered words are \<open>pp\<close> and \<open>p\<close>, \<^verbatim>\<open>end_input\<close>
  returns, and in the model it returns the count of the unigram \<open>pp\<close> is one more, the count
  of the unigram \<open>p\<close> is one more as well (two more when \<open>pp\<close> and \<open>p\<close> are the same word),
  the count of the bigram \<open>pp p\<close> is one more (its entry is created when it was missing),
  and nothing else has changed: every other unigram and bigram count is the same, every
  third-level list is the same (no trigram is added, not for \<open>pp p\<close> either), the only new
  keys are \<open>pp\<close> and \<open>p\<close>, the only new second-level entry is \<open>p\<close> under \<open>pp\<close>, and the two
  remembered words stay.
\<close>

theorem end_input_effect:
  assumes pp: "prev_prev m = Some pp" and p: "prev m = Some p"
  shows "\<exists>m'. end_input m = Inr m' \<and>
     (\<forall>a. unigram_count (first_words m') a =
            unigram_count (first_words m) a + (if a = pp then 1 else 0) + (if a = p then 1 else 0)) \<and>
     (\<forall>a b. bigram_count (first_words m') a b =
            bigram_count (first_words m) a b + (if a = pp \<and> b = p then 1 else 0)) \<and>
     (\<forall>a b. trigrams (first_words m') a b = trigrams (first_words m) a b) \<and>
     set (map fst (first_words m')) = set (map fst (first_words m)) \<union> {pp, p} \<and>
     (\<forall>a. set (map data (bigrams (first_words m') a)) =
            set (map data (bigrams (first_words m) a)) \<union> (if a = pp then {p} else {})) \<and>
     prev_prev m' = Some pp \<and> prev m' = Some p"
proof -
  let ?fw = "first_words m"
  let ?u0 = "(case map_of ?fw pp of None \<Rightarrow> \<lparr>cnt = 0, head = []\<rparr> | Some l \<Rightarrow> l)
        \<lparr>cnt := unigram_count ?fw pp + 1\<rparr>"
  from end_input_pieces[OF pp p] obtain u' i where cb: "count_bigram ?u0 p = (u', i)"
    and e: "end_input m = Inr (m\<lparr>first_words :=
        AList.update p
          ((case map_of (AList.update pp u' ?fw) p of
              None \<Rightarrow> \<lparr>cnt = 0, head = []\<rparr> | Some l \<Rightarrow> l)
           \<lparr>cnt := unigram_count (AList.update pp u' ?fw) p + 1\<rparr>)
          (AList.update pp u' ?fw)\<rparr>)" by blast
  let ?fw3 = "AList.update p
          ((case map_of (AList.update pp u' ?fw) p of
              None \<Rightarrow> \<lparr>cnt = 0, head = []\<rparr> | Some l \<Rightarrow> l)
           \<lparr>cnt := unigram_count (AList.update pp u' ?fw) p + 1\<rparr>)
          (AList.update pp u' ?fw)"
  have h0: "head ?u0 = bigrams ?fw pp" and c0: "cnt ?u0 = unigram_count ?fw pp + 1"
    by (simp_all add: bigrams_def split: option.splits)
  note eff = count_bigram_effect[OF cb, unfolded h0 c0]
  have uc: "unigram_count ?fw3 a =
            unigram_count ?fw a + (if a = pp then 1 else 0) + (if a = p then 1 else 0)" for a
    using eff(1) by (simp add: unigram_count_def update_conv')
  have bg: "bigrams ?fw3 a = (if a = pp then head u' else bigrams ?fw a)" for a
    by (simp add: bigrams_def update_conv' split: option.splits)
  have bc_pp: "bigram_count ?fw3 pp b = bigram_count ?fw pp b + (if b = p then 1 else 0)" for b
    unfolding bigram_count_def bg using eff(2)[of b] by (auto split: if_splits)
  have bc_other: "bigram_count ?fw3 a b = bigram_count ?fw a b" if "a \<noteq> pp" for a b
    unfolding bigram_count_def bg using that by simp
  have bc: "bigram_count ?fw3 a b =
            bigram_count ?fw a b + (if a = pp \<and> b = p then 1 else 0)" for a b
    using bc_pp[of b] bc_other[of a b] by (cases "a = pp") auto
  have tg_pp: "trigrams ?fw3 pp b = trigrams ?fw pp b" for b
    unfolding trigrams_def bg using eff(3)[of b] by (auto split: if_splits)
  have tg_other: "trigrams ?fw3 a b = trigrams ?fw a b" if "a \<noteq> pp" for a b
    unfolding trigrams_def bg using that by simp
  have tg: "trigrams ?fw3 a b = trigrams ?fw a b" for a b
    using tg_pp[of b] tg_other[of a b] by (cases "a = pp") auto
  have ks: "set (map fst ?fw3) = set (map fst ?fw) \<union> {pp, p}"
    by (auto simp: dom_update)
  have ds: "set (map data (bigrams ?fw3 a)) =
            set (map data (bigrams ?fw a)) \<union> (if a = pp then {p} else {})" for a
    using eff(4) by (simp add: bg)
  from uc bc tg ks ds pp p show ?thesis unfolding e by simp
qed


theorem end_input_effect_witness:
  "consume_words (start_input TrigramModel ''x'' ''y'') [''z'', ''x'', ''y'', ''w'']
     = Inr worked_example_before_end \<and>
   prev_prev worked_example_before_end = Some ''y'' \<and>
   prev worked_example_before_end = Some ''w'' \<and>
   end_input worked_example_before_end = Inr worked_example_model \<and>
   unigram_count (first_words worked_example_model) ''y'' =
     unigram_count (first_words worked_example_before_end) ''y'' + 1 \<and>
   unigram_count (first_words worked_example_model) ''w'' =
     unigram_count (first_words worked_example_before_end) ''w'' + 1 \<and>
   unigram_count (first_words worked_example_model) ''x'' =
     unigram_count (first_words worked_example_before_end) ''x'' \<and>
   bigram_count (first_words worked_example_model) ''y'' ''w'' =
     bigram_count (first_words worked_example_before_end) ''y'' ''w'' + 1 \<and>
   bigram_count (first_words worked_example_model) ''y'' ''z'' =
     bigram_count (first_words worked_example_before_end) ''y'' ''z'' \<and>
   trigrams (first_words worked_example_model) ''y'' ''w'' = []"
proof -
  have w: "prev_prev worked_example_before_end = Some ''y''" "prev worked_example_before_end = Some ''w''"
    by (simp_all add: worked_example_before_end_def)
  have c: "consume_words (start_input TrigramModel ''x'' ''y'') [''z'', ''x'', ''y'', ''w'']
     = Inr worked_example_before_end"
    by (simp add: worked_example_before_end_def train_defs)
  have e: "end_input worked_example_before_end = Inr worked_example_model"
    by (simp add: worked_example_before_end_def worked_example_model_def train_defs)
  have t: "trigrams (first_words worked_example_before_end) ''y'' ''w'' = []"
    by (simp add: worked_example_before_end_def trigrams_def bigrams_def)
  from end_input_effect[OF w] e
  have "(\<forall>a. unigram_count (first_words worked_example_model) a =
            unigram_count (first_words worked_example_before_end) a +
            (if a = ''y'' then 1 else 0) + (if a = ''w'' then 1 else 0)) \<and>
     (\<forall>a b. bigram_count (first_words worked_example_model) a b =
            bigram_count (first_words worked_example_before_end) a b +
            (if a = ''y'' \<and> b = ''w'' then 1 else 0)) \<and>
     (\<forall>a b. trigrams (first_words worked_example_model) a b =
            trigrams (first_words worked_example_before_end) a b)"
    by auto
  with w c e t show ?thesis by simp
qed

section \<open>The generator: empty vocabulary and cycle suppression\<close>

lemmas gen_defs = generate_word_def select_candidate_def best_trigram_def best_bigram_def
  rand_word_def random_choice_def output_generator_def OutputGenerator_def Let_def

lemma rand_word_empty: "first_words g = [] \<Longrightarrow> rand_word g r = Inl IndexError"
  by (simp add: rand_word_def random_choice_def)

lemma rand_word_nonempty:
  "first_words g \<noteq> [] \<Longrightarrow>
   rand_word g r = Inr (map fst (first_words g) ! (shd r mod length (first_words g)),
                        g\<lparr>refresh_cnt := refresh_limit g\<rparr>, stl r)"
  by (simp add: rand_word_def random_choice_def Let_def)

text \<open>
  C9, as amended: a generator can be created from a model without any unigram (the
  construction checks nothing and cannot fail), and its first call of \<^verbatim>\<open>generate_word\<close>
  fails with the IndexError of \<^verbatim>\<open>random.choice\<close> on the empty tuple of keys; no word is
  returned.
\<close>

theorem generate_word_empty_model:
  "first_words m = [] \<Longrightarrow> generate_word (output_generator m limit) r = Inl IndexError"
  by (simp add: generate_word_def select_candidate_def rand_word_empty output_generator_def
      OutputGenerator_def)

theorem generate_word_empty_model_witness:
  "first_words (TrigramModel :: string trigram_model) = [] \<and>
   generate_word (output_generator (TrigramModel :: string trigram_model) 15) (sconst 0)
     = Inl IndexError"
  using generate_word_empty_model[of "TrigramModel :: string trigram_model" 15 "sconst 0"]
  by (simp add: TrigramModel_def)

text \<open>
  C9, as stated, fails: on the empty model the construction succeeds, and the failure of
  the first call is not a rejection raised by the generator but the lookup error that
  \<^verbatim>\<open>random.choice\<close> raises.
\<close>

theorem empty_model_counterexample:
  "train TrigramModel [] = Inr (TrigramModel :: string trigram_model) \<and>
   refresh_cnt (output_generator (TrigramModel :: string trigram_model) 15) = 15 \<and>
   generate_word (output_generator (TrigramModel :: string trigram_model) 15) (sconst 0)
     = Inl IndexError \<and>
   lookup_error IndexError"
  by (simp add: gen_defs TrigramModel_def lookup_error_def)

lemma select_candidate_state:
  "select_candidate g r = Inr (w, g1, r1) \<Longrightarrow>
   (g1 = g \<and> r1 = r) \<or> (g1 = g\<lparr>refresh_cnt := refresh_limit g\<rparr> \<and> r1 = stl r)"
  by (auto simp: select_candidate_def best_trigram_def best_bigram_def rand_word_def
      random_choice_def Let_def split: option.splits list.splits if_splits)

lemma generate_word_after_selection:
  assumes "select_candidate g r = Inr (candidate, g1, r1)"
  shows "generate_word g r =
     (if (Some candidate = prev_prev g \<and> prev g = prev_3 g) \<or>
         (Some candidate = prev_3 g \<and> prev g = prev_4 g)
      then Inr (map fst (first_words g) ! (shd r1 mod length (first_words g)),
                shift_window (g\<lparr>refresh_cnt := refresh_limit g - 1\<rparr>)
                  (map fst (first_words g) ! (shd r1 mod length (first_words g))),
                stl r1)
      else Inr (candidate, shift_window (g\<lparr>refresh_cnt := refresh_cnt g1 - 1\<rparr>) candidate, r1))"
proof -
  have ne: "first_words g \<noteq> []"
    using assms
    by (auto simp: select_candidate_def best_trigram_def best_bigram_def rand_word_def
      random_choice_def Let_def split: option.splits list.splits if_splits)
  from select_candidate_state[OF assms]
  have g1: "g1 = g\<lparr>refresh_cnt := refresh_cnt g1\<rparr>" by auto
  from select_candidate_state[OF assms]
  have f: "first_words g1 = first_words g" "prev_prev g1 = prev_prev g" "prev g1 = prev g"
    "prev_3 g1 = prev_3 g" "prev_4 g1 = prev_4 g" "refresh_limit g1 = refresh_limit g"
    by auto
  show ?thesis
    unfolding generate_word_def assms
    by (simp add: f rand_word_nonempty ne shift_window_def)
qed

text \<open>
  C6: whenever the candidate selection of a call returns a candidate, the call returns a
  fresh random draw from the keys, with the counter reset to the limit (and then
  decremented, as in every call), exactly when the candidate equals \<open>w[t-2]\<close> and
  \<open>w[t-1]\<close> equals \<open>w[t-3]\<close>, or the candidate equals \<open>w[t-3]\<close> and \<open>w[t-1]\<close> equals
  \<open>w[t-4]\<close>; otherwise it returns the candidate, with the counter that the selection left.
  (That the draw is uniform is a property of the random source, which is a parameter
  here.)
\<close>

theorem cycle_suppression:
  assumes "select_candidate g r = Inr (candidate, g1, r1)"
  shows "generate_word g r =
     (if (Some candidate = prev_prev g \<and> prev g = prev_3 g) \<or>
         (Some candidate = prev_3 g \<and> prev g = prev_4 g)
      then Inr (map fst (first_words g) ! (shd r1 mod length (first_words g)),
                shift_window (g\<lparr>refresh_cnt := refresh_limit g - 1\<rparr>)
                  (map fst (first_words g) ! (shd r1 mod length (first_words g))),
                stl r1)
      else Inr (candidate, shift_window (g\<lparr>refresh_cnt := refresh_cnt g1 - 1\<rparr>) candidate, r1))"
  using assms by (rule generate_word_after_selection)

lemma reach_cycling_generator:
  "generate_words (output_generator worked_example_finished 2) (0 ## 0 ## 7 ## sconst 0) 3
     = Inr ([''x'', ''y'', ''x''], cycling_generator, 7 ## sconst 0)"
proof -
  let ?fw = "first_words worked_example_finished"
  have 1: "generate_word
      \<lparr>first_words = ?fw, prev_prev = None, prev = None,
       refresh_limit = 2, refresh_cnt = 2, prev_4 = None, prev_3 = None\<rparr>
      (0 ## 0 ## 7 ## sconst 0)
    = Inr (''x'',
      \<lparr>first_words = ?fw, prev_prev = None, prev = Some ''x'',
       refresh_limit = 2, refresh_cnt = 1, prev_4 = None, prev_3 = None\<rparr>,
      0 ## 7 ## sconst 0)"
    by (simp add: gen_defs worked_example_finished_def)
  have 2: "generate_word
      \<lparr>first_words = ?fw, prev_prev = None, prev = Some ''x'',
       refresh_limit = 2, refresh_cnt = 1, prev_4 = None, prev_3 = None\<rparr>
      (0 ## 7 ## sconst 0)
    = Inr (''y'',
      \<lparr>first_words = ?fw, prev_prev = Some ''x'', prev = Some ''y'',
       refresh_limit = 2, refresh_cnt = 0, prev_4 = None, prev_3 = None\<rparr>,
      0 ## 7 ## sconst 0)"
    by (simp add: gen_defs worked_example_finished_def)
  have 3: "generate_word
      \<lparr>first_words = ?fw, prev_prev = Some ''x'', prev = Some ''y'',
       refresh_limit = 2, refresh_cnt = 0, prev_4 = None, prev_3 = None\<rparr>
      (0 ## 7 ## sconst 0)
    = Inr (''x'',
      \<lparr>first_words = ?fw, prev_prev = Some ''y'', prev = Some ''x'',
       refresh_limit = 2, refresh_cnt = 1, prev_4 = None, prev_3 = Some ''x''\<rparr>,
      7 ## sconst 0)"
    by (simp add: gen_defs worked_example_finished_def)
  have n: "(3::nat) = Suc (Suc (Suc 0))" by simp
  show ?thesis
    unfolding n generate_words.simps output_generator_def OutputGenerator_def cycling_generator_def
    by (simp add: 1 2 3)
qed


lemma select_cycling:
  "select_candidate cycling_generator (7 ## sconst 0)
     = Inr (''y'', cycling_generator, 7 ## sconst 0)"
  by (simp add: cycling_generator_def worked_example_finished_def select_candidate_def
      best_trigram_def best_bigram_def)


theorem cycle_suppression_witness:
  "generate_words (output_generator worked_example_finished 2) (0 ## 0 ## 7 ## sconst 0) 3
     = Inr ([''x'', ''y'', ''x''], cycling_generator, 7 ## sconst 0) \<and>
   select_candidate cycling_generator (7 ## sconst 0)
     = Inr (''y'', cycling_generator, 7 ## sconst 0) \<and>
   Some ''y'' = prev_prev cycling_generator \<and>
   prev cycling_generator = prev_3 cycling_generator \<and>
   generate_word cycling_generator (7 ## sconst 0)
     = Inr (''w'',
            \<lparr>first_words = first_words worked_example_finished,
             prev_prev = Some ''x'', prev = Some ''w'',
             refresh_limit = 2, refresh_cnt = 1, prev_4 = Some ''x'', prev_3 = Some ''y''\<rparr>,
            sconst 0)"
proof -
  have w: "Some ''y'' = prev_prev cycling_generator"
    "prev cycling_generator = prev_3 cycling_generator"
    by (simp_all add: cycling_generator_def)
  have k: "map fst (first_words cycling_generator) = [''x'', ''y'', ''z'', ''w'']"
    by (simp add: cycling_generator_def worked_example_finished_def)
  have l: "length (first_words cycling_generator) = 4"
    by (simp add: cycling_generator_def worked_example_finished_def)
  have "generate_word cycling_generator (7 ## sconst 0)
     = Inr (''w'',
            \<lparr>first_words = first_words worked_example_finished,
             prev_prev = Some ''x'', prev = Some ''w'',
             refresh_limit = 2, refresh_cnt = 1, prev_4 = Some ''x'', prev_3 = Some ''y''\<rparr>,
            sconst 0)"
    unfolding cycle_suppression[OF select_cycling] k l
    by (simp add: w) (simp add: cycling_generator_def shift_window_def)
  with select_cycling w reach_cycling_generator show ?thesis by simp
qed

section \<open>Trained models are closed under their vocabulary\<close>

lemma set_cycle_unigrams: "set (cycle_unigrams pp p ws) = {pp, p} \<union> set ws"
  by (induction ws arbitrary: pp p) auto

lemma snd_cycle_bigrams: "snd ` set (cycle_bigrams pp p ws) \<subseteq> {p} \<union> set ws"
  by (induction ws arbitrary: pp p) auto

lemma third_cycle_trigrams: "(\<lambda>x. snd (snd x)) ` set (cycle_trigrams pp p ws) \<subseteq> set ws"
  by (induction ws arbitrary: pp p) auto

lemma counted_bigrams_known: "snd ` set (counted_bigrams ds) \<subseteq> set (counted_unigrams ds)"
proof
  fix w assume "w \<in> snd ` set (counted_bigrams ds)"
  then obtain x where x: "x \<in> set (counted_bigrams ds)" "w = snd x" by blast
  then obtain d where d: "d \<in> set ds" "x \<in> set (case d of (a, b, ws) \<Rightarrow> cycle_bigrams a b ws)"
    by (auto simp: counted_bigrams_def)
  obtain a b ws where e: "d = (a, b, ws)" by (cases d) auto
  with d x have "w \<in> snd ` set (cycle_bigrams a b ws)" by auto
  then have "w \<in> set (cycle_unigrams a b ws)"
    using snd_cycle_bigrams[of a b ws] set_cycle_unigrams[of a b ws] by auto
  with d(1) e show "w \<in> set (counted_unigrams ds)"
    by (force simp: counted_unigrams_def)
qed

lemma counted_trigrams_known:
  "(\<lambda>x. snd (snd x)) ` set (counted_trigrams ds) \<subseteq> set (counted_unigrams ds)"
proof
  fix w assume "w \<in> (\<lambda>x. snd (snd x)) ` set (counted_trigrams ds)"
  then obtain x where x: "x \<in> set (counted_trigrams ds)" "w = snd (snd x)" by blast
  then obtain d where d: "d \<in> set ds" "x \<in> set (case d of (a, b, ws) \<Rightarrow> cycle_trigrams a b ws)"
    by (auto simp: counted_trigrams_def)
  obtain a b ws where e: "d = (a, b, ws)" by (cases d) auto
  with d x have "w \<in> (\<lambda>x. snd (snd x)) ` set (cycle_trigrams a b ws)" by auto
  then have "w \<in> set (cycle_unigrams a b ws)"
    using third_cycle_trigrams[of a b ws] set_cycle_unigrams[of a b ws] by auto
  with d(1) e show "w \<in> set (counted_unigrams ds)"
    by (force simp: counted_unigrams_def)
qed

lemma represents_keys: "represents fw U B T \<Longrightarrow> set (map fst fw) = set U"
proof -
  assume r: "represents fw U B T"
  have "a \<in> set (map fst fw) \<longleftrightarrow> a \<in> set U" for a
  proof -
    have "a \<in> set (map fst fw) \<longleftrightarrow> map_of fw a \<noteq> None"
      by (simp add: map_of_eq_None_iff)
    also have "\<dots> \<longleftrightarrow> a \<in> set U" using r by (simp add: represents_def)
    finally show ?thesis .
  qed
  then show ?thesis by blast
qed

lemma represents_vocab_closed:
  assumes r: "represents fw U B T"
    and b: "snd ` set B \<subseteq> set U" and t: "(\<lambda>x. snd (snd x)) ` set T \<subseteq> set U"
  shows "vocab_closed fw"
proof -
  have k: "set (map fst fw) = set U" by (rule represents_keys[OF r])
  have "data n \<in> set U \<and> (\<forall>x\<in>set (child n). data x \<in> set U)"
    if "(a, u) \<in> set fw" "n \<in> set (head u)" for a u n
  proof -
    from represents_member[OF r that(1)] have h: "head u = blist B T a"
      by (simp add: ulist_def)
    with that(2) have n: "n \<in> set (blist B T a)" by simp
    then have "data n \<in> set (followers2 B a)"
      using data_set_blist[of B T a] by blast
    then have 1: "data n \<in> set U" using b by (auto simp: followers2_def)
    from n have "child n = tlist (followers3 T a (data n))" by (rule child_blist)
    then have "data ` set (child n) = set (followers3 T a (data n))"
      by (simp add: data_set_tlist)
    then have "data ` set (child n) \<subseteq> set U" using t by (auto simp: followers3_def)
    with 1 show ?thesis by auto
  qed
  then show ?thesis
    unfolding vocab_closed_def k by (auto simp: list_all_iff)
qed

lemma trained_vocab_closed: "train TrigramModel ds = Inr m \<Longrightarrow> vocab_closed (first_words m)"
  using represents_vocab_closed[OF trained_represents counted_bigrams_known counted_trigrams_known]
  by blast

lemma trained_keys:
  "train TrigramModel ds = Inr m \<Longrightarrow> set (map fst (first_words m)) = set (counted_unigrams ds)"
  using represents_keys[OF trained_represents] by blast

lemma counted_unigrams_nonempty: "ds \<noteq> [] \<Longrightarrow> counted_unigrams ds \<noteq> []"
proof (cases ds)
  case Nil
  then show "ds \<noteq> [] \<Longrightarrow> ?thesis" by simp
next
  case (Cons d ds')
  obtain a b ws where "d = (a, b, ws)" by (cases d) auto
  moreover have "cycle_unigrams a b ws \<noteq> []" by (cases ws) auto
  ultimately show ?thesis using Cons by (simp add: counted_unigrams_def)
qed

lemma finished_vocab_closed:
  assumes "vocab_closed fw"
  shows "vocab_closed (map (\<lambda>(w, u). (w, finished_list u)) fw)"
proof -
  let ?fw' = "map (\<lambda>(w, u). (w, finished_list u)) fw"
  have k: "map fst ?fw' = map fst fw" by (induction fw) auto
  have "data n \<in> set (map fst fw) \<and> (\<forall>x\<in>set (child n). data x \<in> set (map fst fw))"
    if "(a, u) \<in> set fw" "n \<in> set (head (finished_list u))" for a u n
  proof -
    from that(2) obtain n0 where n0: "n0 \<in> set (head u)" "n = n0\<lparr>child := promoted (child n0)\<rparr>"
      by (auto simp: finished_list_def set_promoted)
    from assms that(1) n0(1) have "data n0 \<in> set (map fst fw) \<and>
        (\<forall>x\<in>set (child n0). data x \<in> set (map fst fw))"
      unfolding vocab_closed_def list_all_iff by fastforce
    then show ?thesis using n0(2) by (simp add: set_promoted)
  qed
  then show ?thesis
    unfolding vocab_closed_def k by (auto simp: list_all_iff)
qed

section \<open>The generator stays inside the vocabulary\<close>

lemma known_lookup:
  "a \<in> set (map fst fw) \<Longrightarrow> \<exists>l. map_of fw a = Some l \<and> (a, l) \<in> set fw"
proof -
  assume "a \<in> set (map fst fw)"
  then have "map_of fw a \<noteq> None" by (simp add: map_of_eq_None_iff)
  then obtain l where "map_of fw a = Some l" by blast
  then show ?thesis using map_of_SomeD by fastforce
qed

lemma vocab_closedD:
  assumes "vocab_closed fw" "(a, l) \<in> set fw" "n \<in> set (head l)"
  shows "data n \<in> set (map fst fw)" and "t \<in> set (child n) \<Longrightarrow> data t \<in> set (map fst fw)"
  using assms unfolding vocab_closed_def list_all_iff by fastforce+

lemma rand_word_known:
  assumes "first_words g \<noteq> []"
  shows "\<exists>w. rand_word g r = Inr (w, g\<lparr>refresh_cnt := refresh_limit g\<rparr>, stl r) \<and>
             w \<in> set (map fst (first_words g))"
proof -
  have "shd r mod length (first_words g) < length (map fst (first_words g))"
    using assms by simp
  then have "map fst (first_words g) ! (shd r mod length (first_words g))
      \<in> set (map fst (first_words g))" by (rule nth_mem)
  then show ?thesis using rand_word_nonempty[OF assms, of r] by simp
qed

lemma best_bigram_known:
  assumes c: "vocab_closed (first_words g)" and p: "prev g = Some p"
    and k: "p \<in> set (map fst (first_words g))"
  shows "\<exists>w g1 r1. best_bigram g r = Inr (w, g1, r1) \<and> w \<in> set (map fst (first_words g))"
proof -
  from known_lookup[OF k] obtain l where l: "map_of (first_words g) p = Some l"
    "(p, l) \<in> set (first_words g)" by blast
  then have ne: "first_words g \<noteq> []" by auto
  show ?thesis
  proof (cases "head l")
    case Nil
    with p l rand_word_known[OF ne, of r] show ?thesis
      by (auto simp: best_bigram_def)
  next
    case (Cons n ns)
    then have "n \<in> set (head l)" by simp
    from vocab_closedD(1)[OF c l(2) this] p l Cons show ?thesis
      by (simp add: best_bigram_def)
  qed
qed

lemma best_trigram_known:
  assumes c: "vocab_closed (first_words g)" and pp: "prev_prev g = Some pp"
    and kk: "pp \<in> set (map fst (first_words g))"
    and p: "prev g = Some p" and k: "p \<in> set (map fst (first_words g))"
  shows "\<exists>w g1 r1. best_trigram g r = Inr (w, g1, r1) \<and> w \<in> set (map fst (first_words g))"
proof -
  from known_lookup[OF kk] obtain l where l: "map_of (first_words g) pp = Some l"
    "(pp, l) \<in> set (first_words g)" by blast
  note bb = best_bigram_known[OF c p k, of r]
  show ?thesis
  proof (cases "getitem (head l) p")
    case None
    with pp p l bb show ?thesis by (simp add: best_trigram_def)
  next
    case (Some i)
    from getitem_Some[OF Some] have i: "head l ! i \<in> set (head l)" by simp
    show ?thesis
    proof (cases "child (head l ! i)")
      case Nil
      with Some pp p l bb show ?thesis by (simp add: best_trigram_def)
    next
      case (Cons t ts)
      then have "t \<in> set (child (head l ! i))" by simp
      from vocab_closedD(2)[OF c l(2) i this] Some pp p l Cons show ?thesis
        by (simp add: best_trigram_def)
    qed
  qed
qed

lemma select_candidate_known:
  assumes c: "vocab_closed (first_words g)" and w: "window_known g"
    and ne: "first_words g \<noteq> []"
  shows "\<exists>w g1 r1. select_candidate g r = Inr (w, g1, r1) \<and> w \<in> set (map fst (first_words g))"
proof (cases "refresh_cnt g \<le> 0")
  case True
  with rand_word_known[OF ne, of r] show ?thesis by (auto simp: select_candidate_def)
next
  case False
  show ?thesis
  proof (cases "prev g")
    case None
    with w have "prev_prev g = None" by (simp add: window_known_def)
    with None False rand_word_known[OF ne, of r] show ?thesis
      by (auto simp: select_candidate_def)
  next
    case (Some p)
    with w have k: "p \<in> set (map fst (first_words g))" by (simp add: window_known_def)
    show ?thesis
    proof (cases "prev_prev g")
      case None
      with Some False best_bigram_known[OF c Some k, of r] show ?thesis
        by (simp add: select_candidate_def)
    next
      case pp: (Some pp)
      with w have kk: "pp \<in> set (map fst (first_words g))" by (simp add: window_known_def)
      from pp False best_trigram_known[OF c pp kk Some k, of r] show ?thesis
        by (simp add: select_candidate_def)
    qed
  qed
qed

lemma generate_word_known:
  assumes c: "vocab_closed (first_words g)" and w: "window_known g"
    and ne: "first_words g \<noteq> []"
  shows "\<exists>x g' r'. generate_word g r = Inr (x, g', r') \<and> x \<in> set (map fst (first_words g)) \<and>
           window_known g' \<and> first_words g' = first_words g \<and> refresh_limit g' = refresh_limit g"
proof -
  from select_candidate_known[OF c w ne, of r] obtain cand g1 r1 where
    s: "select_candidate g r = Inr (cand, g1, r1)" and ck: "cand \<in> set (map fst (first_words g))"
    by blast
  let ?x = "map fst (first_words g) ! (shd r1 mod length (first_words g))"
  have xk: "?x \<in> set (map fst (first_words g))"
    using ne by (intro nth_mem) simp
  have pk: "case prev g of None \<Rightarrow> True | Some p \<Rightarrow> p \<in> set (map fst (first_words g))"
    using w by (auto simp: window_known_def split: option.splits)
  show ?thesis
    unfolding generate_word_after_selection[OF s]
    using ck xk pk by (auto simp: shift_window_def window_known_def split: option.splits)
qed

lemma generate_words_known:
  assumes c: "vocab_closed (first_words g)" and w: "window_known g"
    and ne: "first_words g \<noteq> []"
  shows "\<exists>ws g' r'. generate_words g r n = Inr (ws, g', r') \<and>
           set ws \<subseteq> set (map fst (first_words g)) \<and>
           window_known g' \<and> first_words g' = first_words g \<and> refresh_limit g' = refresh_limit g"
  using assms
proof (induction n arbitrary: g r)
  case 0
  then show ?case by simp
next
  case (Suc n)
  from generate_word_known[OF Suc.prems, of r] obtain x g1 r1 where
    1: "generate_word g r = Inr (x, g1, r1)" "x \<in> set (map fst (first_words g))"
    "window_known g1" "first_words g1 = first_words g" "refresh_limit g1 = refresh_limit g"
    by blast
  from Suc.IH[of g1 r1] 1 Suc.prems obtain ws g' r' where
    2: "generate_words g1 r1 n = Inr (ws, g', r')" "set ws \<subseteq> set (map fst (first_words g))"
    "window_known g'" "first_words g' = first_words g" "refresh_limit g' = refresh_limit g"
    by auto
  from 1 2 show ?case by simp
qed

section \<open>The candidate selection follows the rules\<close>

lemma draw_by_rules_eq: "draw_by_rules g r = rand_word g r"
  by (cases "first_words g") (auto simp: draw_by_rules_def rand_word_def random_choice_def Let_def)

lemma bigram_rule_eq:
  assumes p: "prev g = Some p" and k: "p \<in> set (map fst (first_words g))"
  shows "bigram_rule g r = best_bigram g r"
proof -
  from known_lookup[OF k] obtain l where "map_of (first_words g) p = Some l" by blast
  then show ?thesis using p
    by (auto simp: bigram_rule_def bigram_head_def bigrams_def best_bigram_def draw_by_rules_eq
        split: list.splits)
qed

lemma trigram_rule_eq:
  assumes pp: "prev_prev g = Some pp" and kk: "pp \<in> set (map fst (first_words g))"
    and p: "prev g = Some p" and k: "p \<in> set (map fst (first_words g))"
  shows "(case trigram_head g of Some w \<Rightarrow> Inr (w, g, r) | None \<Rightarrow> bigram_rule g r)
         = best_trigram g r"
proof -
  from known_lookup[OF kk] obtain l where "map_of (first_words g) pp = Some l" by blast
  then show ?thesis using p pp bigram_rule_eq[OF p k, of r]
    by (auto simp: trigram_head_def trigrams_def bigrams_def best_trigram_def
        split: list.splits option.splits)
qed

lemma candidate_by_rules_eq:
  assumes "window_known g"
  shows "candidate_by_rules g r = select_candidate g r"
proof (cases "prev g")
  case None
  with assms have "prev_prev g = None" by (simp add: window_known_def)
  with None show ?thesis
    by (simp add: candidate_by_rules_def select_candidate_def draw_by_rules_eq)
next
  case (Some p)
  with assms have k: "p \<in> set (map fst (first_words g))" by (simp add: window_known_def)
  show ?thesis
  proof (cases "prev_prev g")
    case None
    with Some bigram_rule_eq[OF Some k, of r] show ?thesis
      by (simp add: candidate_by_rules_def select_candidate_def draw_by_rules_eq)
  next
    case pp: (Some pp)
    with assms have kk: "pp \<in> set (map fst (first_words g))" by (simp add: window_known_def)
    from pp Some trigram_rule_eq[OF pp kk Some k, of r] show ?thesis
      by (simp add: candidate_by_rules_def select_candidate_def draw_by_rules_eq)
  qed
qed

lemma fresh_window_known: "window_known (output_generator m limit)"
  by (simp add: window_known_def output_generator_def OutputGenerator_def)

lemma fresh_first_words: "first_words (output_generator m limit) = first_words m"
  by (simp add: output_generator_def OutputGenerator_def)

lemma finished_first_words:
  "finish m = Inr m' \<Longrightarrow> first_words m' = map (\<lambda>(w, u). (w, finished_list u)) (first_words m)"
  by (auto simp: finish_eq)

lemma finished_keys: "finish m = Inr m' \<Longrightarrow> map fst (first_words m') = map fst (first_words m)"
  by (auto simp: finish_eq o_def case_prod_unfold)

text \<open>
  C4: on a generator of a trained (at least one document) and finished model any number
  of calls of \<^verbatim>\<open>generate_word\<close> return, and at the next call, whatever the random source
  is, the candidate selection returns, and it returns what the rules of the
  specification give, tried in their order: the forced draw when the counter is not
  positive; else the trigram head when both words are set, falling back to the bigram
  rule; else the bigram head when the last word is set, falling back to a draw; else a
  draw.  Missing bigram or trigram data never makes the selection fail.  (That the draw is
  uniform is a property of the random source, which is a parameter here.)
\<close>

theorem candidate_selection_rules:
  assumes ne: "ds \<noteq> []"
  shows "\<exists>m m' ws g r1. train TrigramModel ds = Inr m \<and> finish m = Inr m' \<and>
           generate_words (output_generator m' limit) r0 n = Inr (ws, g, r1) \<and>
           (\<exists>w g' r'. select_candidate g r = Inr (w, g', r') \<and>
                      candidate_by_rules g r = Inr (w, g', r'))"
proof -
  from train_represents[of ds] obtain m where t: "train TrigramModel ds = Inr m" by blast
  obtain m' where f: "finish m = Inr m'" by (simp add: finish_eq)
  have c: "vocab_closed (first_words m')"
    using finished_vocab_closed[OF trained_vocab_closed[OF t]] finished_first_words[OF f] by simp
  have "set (map fst (first_words m')) = set (counted_unigrams ds)"
    using trained_keys[OF t] finished_keys[OF f] by simp
  with counted_unigrams_nonempty[OF ne] have n: "first_words m' \<noteq> []" by auto
  from generate_words_known[of "output_generator m' limit" r0 n] c n
  obtain ws g r1 where run: "generate_words (output_generator m' limit) r0 n = Inr (ws, g, r1)"
    and g: "window_known g" "first_words g = first_words m'"
    by (auto simp: fresh_window_known fresh_first_words)
  from select_candidate_known[of g r] c n g candidate_by_rules_eq[OF g(1), of r]
  have "\<exists>w g' r'. select_candidate g r = Inr (w, g', r') \<and>
                      candidate_by_rules g r = Inr (w, g', r')" by auto
  with t f run show ?thesis by blast
qed

lemma fresh_empty_fails:
  "first_words m = [] \<Longrightarrow> generate_words (output_generator m limit) r (Suc n) = Inl IndexError"
  by (simp add: generate_word_def select_candidate_def rand_word_empty output_generator_def
      OutputGenerator_def)

lemma safe_generation:
  assumes c: "vocab_closed (first_words m)"
  shows "case generate_words (output_generator m limit) r n of
           Inl e \<Rightarrow> e = IndexError \<and> first_words m = []
         | Inr (ws, g, r') \<Rightarrow> set ws \<subseteq> set (map fst (first_words m))"
proof (cases "first_words m = []")
  case True
  then show ?thesis using fresh_empty_fails[OF True, of limit r] by (cases n) auto
next
  case False
  from generate_words_known[of "output_generator m limit" r n] c False
  show ?thesis by (auto simp: fresh_window_known fresh_first_words)
qed

text \<open>
  C10: after any sequence of complete training cycles, before and after \<^verbatim>\<open>finish\<close>, every
  word stored in a bigram or trigram entry of the model is a key of the top-level dict;
  and any number of calls of \<^verbatim>\<open>generate_word\<close> on a generator of the model, with any limit
  and any random source, never fail in a lookup of \<^verbatim>\<open>_best_bigram\<close> or \<^verbatim>\<open>_best_trigram\<close>
  (the only failure there is is the IndexError of the draw when no document was trained
  at all), and every word they return is a key of the dict.
\<close>

theorem vocabulary_closed:
  "\<exists>m m'. train TrigramModel ds = Inr m \<and> finish m = Inr m' \<and>
         vocab_closed (first_words m) \<and> vocab_closed (first_words m') \<and>
         (case generate_words (output_generator m limit) r n of
            Inl e \<Rightarrow> e = IndexError \<and> ds = []
          | Inr (ws, g, r') \<Rightarrow> set ws \<subseteq> set (map fst (first_words m))) \<and>
         (case generate_words (output_generator m' limit) r n of
            Inl e \<Rightarrow> e = IndexError \<and> ds = []
          | Inr (ws, g, r') \<Rightarrow> set ws \<subseteq> set (map fst (first_words m')))"
proof -
  from train_represents[of ds] obtain m where t: "train TrigramModel ds = Inr m" by blast
  obtain m' where f: "finish m = Inr m'" by (simp add: finish_eq)
  have c: "vocab_closed (first_words m)" by (rule trained_vocab_closed[OF t])
  have c': "vocab_closed (first_words m')"
    using finished_vocab_closed[OF c] finished_first_words[OF f] by simp
  have e: "first_words m = [] \<Longrightarrow> ds = []"
    using trained_keys[OF t] counted_unigrams_nonempty[of ds] by auto
  have e': "first_words m' = [] \<Longrightarrow> ds = []"
    using e finished_keys[OF f] by auto
  from safe_generation[OF c, of limit r n] e
  have 1: "case generate_words (output_generator m limit) r n of
            Inl e \<Rightarrow> e = IndexError \<and> ds = []
          | Inr (ws, g, r') \<Rightarrow> set ws \<subseteq> set (map fst (first_words m))"
    by (auto split: sum.splits)
  from safe_generation[OF c', of limit r n] e'
  have 2: "case generate_words (output_generator m' limit) r n of
            Inl e \<Rightarrow> e = IndexError \<and> ds = []
          | Inr (ws, g, r') \<Rightarrow> set ws \<subseteq> set (map fst (first_words m'))"
    by (auto split: sum.splits)
  from t f c c' 1 2 show ?thesis by blast
qed

theorem vocabulary_closed_witness:
  "train TrigramModel [worked_example] = Inr worked_example_model \<and>
   finish worked_example_model = Inr worked_example_finished \<and>
   vocab_closed (first_words worked_example_model) \<and>
   vocab_closed (first_words worked_example_finished) \<and>
   generate_words (output_generator worked_example_finished 2) (0 ## 0 ## 7 ## sconst 0) 3
     = Inr ([''x'', ''y'', ''x''], cycling_generator, 7 ## sconst 0) \<and>
   set [''x'', ''y'', ''x''] \<subseteq> set (map fst (first_words worked_example_finished))"
proof -
  from vocabulary_closed[of "[worked_example]" 2 "0 ## 0 ## 7 ## sconst 0" 3]
    train_worked_example finish_worked_example reach_cycling_generator
  have "vocab_closed (first_words worked_example_model) \<and>
   vocab_closed (first_words worked_example_finished) \<and>
   set [''x'', ''y'', ''x''] \<subseteq> set (map fst (first_words worked_example_finished))"
    by auto
  with train_worked_example finish_worked_example reach_cycling_generator show ?thesis by simp
qed

theorem candidate_selection_rules_witness:
  "[worked_example] \<noteq> [] \<and>
   train TrigramModel [worked_example] = Inr worked_example_model \<and>
   finish worked_example_model = Inr worked_example_finished \<and>
   generate_words (output_generator worked_example_finished 2) (0 ## 0 ## 7 ## sconst 0) 3
     = Inr ([''x'', ''y'', ''x''], cycling_generator, 7 ## sconst 0) \<and>
   trigram_head cycling_generator = None \<and>
   bigram_head cycling_generator = Some ''y'' \<and>
   select_candidate cycling_generator (7 ## sconst 0)
     = Inr (''y'', cycling_generator, 7 ## sconst 0) \<and>
   candidate_by_rules cycling_generator (7 ## sconst 0)
     = Inr (''y'', cycling_generator, 7 ## sconst 0)"
proof -
  have n: "[worked_example] \<noteq> []" by simp
  have th: "trigram_head cycling_generator = None"
    by (simp add: trigram_head_def trigrams_def bigrams_def cycling_generator_def
        worked_example_finished_def)
  have bh: "bigram_head cycling_generator = Some ''y''"
    by (simp add: bigram_head_def bigrams_def cycling_generator_def worked_example_finished_def)
  from candidate_selection_rules[OF n, of 2 "0 ## 0 ## 7 ## sconst 0" 3 "7 ## sconst 0"]
    train_worked_example finish_worked_example reach_cycling_generator select_cycling
  have "candidate_by_rules cycling_generator (7 ## sconst 0)
     = Inr (''y'', cycling_generator, 7 ## sconst 0)" by auto
  with th bh select_cycling train_worked_example finish_worked_example reach_cycling_generator
  show ?thesis by simp
qed

section \<open>The period of the forced draws\<close>

lemma greedy_selection:
  assumes s: "select_candidate g r = Inr (c, g1, r1)"
    and pos: "0 < refresh_cnt g" and p: "prev g \<noteq> None" and a: "greedy_available g"
  shows "g1 = g \<and> r1 = r \<and>
         (trigram_head g = Some c \<or> (trigram_head g = None \<and> bigram_head g = Some c))"
  using assms
  by (auto simp: select_candidate_def best_trigram_def best_bigram_def greedy_available_def
      trigram_head_def bigram_head_def trigrams_def bigrams_def
      split: option.splits list.splits if_splits)

lemma forced_selection:
  assumes s: "select_candidate g r = Inr (c, g1, r1)"
    and f: "refresh_cnt g \<le> 0 \<or> prev g = None"
  shows "refresh_cnt g1 = refresh_limit g"
  using assms
  by (auto simp: select_candidate_def best_trigram_def best_bigram_def rand_word_def
      random_choice_def Let_def split: option.splits list.splits if_splits)

lemma undisturbed_step:
  assumes u: "undisturbed g r"
  shows "\<exists>w g' r'. generate_word g r = Inr (w, g', r') \<and>
           refresh_limit g' = refresh_limit g \<and> prev g' \<noteq> None \<and> first_words g' = first_words g \<and>
           refresh_cnt g' = (if refresh_cnt g \<le> 0 \<or> prev g = None
                             then refresh_limit g - 1 else refresh_cnt g - 1)"
proof -
  from u obtain c g1 r1 where s: "select_candidate g r = Inr (c, g1, r1)"
    and nc: "\<not> cycle_detected g c"
    and av: "refresh_cnt g \<le> 0 \<or> prev g = None \<or> greedy_available g"
    by (auto simp: undisturbed_def split: sum.splits)
  have e: "generate_word g r =
      Inr (c, shift_window (g\<lparr>refresh_cnt := refresh_cnt g1 - 1\<rparr>) c, r1)"
    using generate_word_after_selection[OF s] nc by (auto simp: cycle_detected_def)
  show ?thesis
  proof (cases "refresh_cnt g \<le> 0 \<or> prev g = None")
    case True
    from forced_selection[OF s True] e True show ?thesis
      by (auto simp: shift_window_def)
  next
    case False
    with av have "0 < refresh_cnt g" "prev g \<noteq> None" "greedy_available g" by auto
    from greedy_selection[OF s this] e False show ?thesis
      by (auto simp: shift_window_def)
  qed
qed

lemma generate_words_snoc:
  "generate_words g r (Suc n) =
     (case generate_words g r n of
        Inl e \<Rightarrow> Inl e
      | Inr (ws, g', r') \<Rightarrow>
          (case generate_word g' r' of
             Inl e \<Rightarrow> Inl e
           | Inr (w, g'', r'') \<Rightarrow> Inr (ws @ [w], g'', r'')))"
proof (induction n arbitrary: g r)
  case 0
  then show ?case by (auto split: sum.splits)
next
  case (Suc n)
  show ?case
    apply (subst generate_words.simps(2))
    apply (subst Suc.IH)
    apply (auto split: sum.splits)
    done
qed

lemma undisturbed_run_snoc:
  "undisturbed_run g r (Suc n) =
     (undisturbed_run g r n \<and>
      (case generate_words g r n of
         Inl e \<Rightarrow> False
       | Inr (ws, g', r') \<Rightarrow> undisturbed g' r'))"
proof (induction n arbitrary: g r)
  case 0
  show ?case using undisturbed_step[of g r] by (auto split: sum.splits)
next
  case (Suc n)
  show ?case
    apply (subst undisturbed_run.simps(2))
    apply (subst Suc.IH)
    apply (auto split: sum.splits)
    done
qed


lemma counter_after:
  assumes l: "1 \<le> limit"
    and u: "undisturbed_run (output_generator m limit) r k"
  shows "\<exists>ws g r'. generate_words (output_generator m limit) r k = Inr (ws, g, r') \<and>
           refresh_limit g = limit \<and>
           (case k of
              0 \<Rightarrow> prev g = None \<and> refresh_cnt g = limit
            | Suc j \<Rightarrow> prev g \<noteq> None \<and> refresh_cnt g = limit - 1 - int (j mod nat limit))"
  using u
proof (induction k)
  case 0
  then show ?case by (simp add: output_generator_def OutputGenerator_def)
next
  case (Suc k)
  from Suc.prems have uk: "undisturbed_run (output_generator m limit) r k"
    by (simp add: undisturbed_run_snoc del: undisturbed_run.simps(2))
  from Suc.IH[OF uk] obtain ws g r' where
    run: "generate_words (output_generator m limit) r k = Inr (ws, g, r')"
    and lim: "refresh_limit g = limit"
    and inv: "case k of 0 \<Rightarrow> prev g = None \<and> refresh_cnt g = limit
            | Suc j \<Rightarrow> prev g \<noteq> None \<and> refresh_cnt g = limit - 1 - int (j mod nat limit)"
    by blast
  from Suc.prems run have ug: "undisturbed g r'"
    by (simp add: undisturbed_run_snoc del: undisturbed_run.simps(2))
  from undisturbed_step[OF ug] obtain w g' r'' where
    st: "generate_word g r' = Inr (w, g', r'')" "refresh_limit g' = refresh_limit g"
    "prev g' \<noteq> None"
    "refresh_cnt g' = (if refresh_cnt g \<le> 0 \<or> prev g = None
                             then refresh_limit g - 1 else refresh_cnt g - 1)"
    by blast
  have "refresh_cnt g' = limit - 1 - int (k mod nat limit)"
  proof (cases k)
    case 0
    with inv st(4) lim show ?thesis by simp
  next
    case (Suc j)
    with inv have p: "prev g \<noteq> None" and c: "refresh_cnt g = limit - 1 - int (j mod nat limit)"
      by simp_all
    have lt: "j mod nat limit < nat limit" using l by simp
    show ?thesis
    proof (cases "Suc (j mod nat limit) = nat limit")
      case True
      then have "k mod nat limit = 0" using Suc by (simp add: mod_Suc)
      moreover from True l have "refresh_cnt g \<le> 0" unfolding c by linarith
      ultimately show ?thesis using st(4) lim by simp
    next
      case False
      then have "k mod nat limit = Suc (j mod nat limit)" using Suc by (simp add: mod_Suc)
      moreover from False lt l have "\<not> refresh_cnt g \<le> 0" unfolding c by linarith
      ultimately show ?thesis using st(4) p c by simp
    qed
  qed
  with run st lim show ?case
    by (simp add: generate_words_snoc del: generate_words.simps(2))
qed

text \<open>
  C5, as amended: for every limit \<open>R \<ge> 1\<close>, in a run of a fresh generator without
  interference, the call number \<open>k + 1\<close> takes the forced draw (its counter is not positive)
  exactly when \<open>k\<close> is a positive multiple of \<open>R\<close>, that is on the steps
  \<open>R + 1, 2 R + 1, 3 R + 1, ...\<close>; and every other call after the first returns as
  candidate the head that the greedy rules give, without a draw.
\<close>

theorem refresh_period:
  assumes l: "1 \<le> limit"
    and u: "undisturbed_run (output_generator m limit) r n"
    and k: "k < n"
  shows "\<exists>ws g r'. generate_words (output_generator m limit) r k = Inr (ws, g, r') \<and>
           (refresh_cnt g \<le> 0 \<longleftrightarrow> 0 < k \<and> k mod nat limit = 0) \<and>
           (0 < k \<and> k mod nat limit \<noteq> 0 \<longrightarrow>
              (\<exists>w. select_candidate g r' = Inr (w, g, r') \<and>
                   (trigram_head g = Some w \<or> (trigram_head g = None \<and> bigram_head g = Some w))))"
proof -
  have mono: "undisturbed_run g0 r0 b \<Longrightarrow> a \<le> b \<Longrightarrow> undisturbed_run g0 r0 a"
    for g0 :: "'a output_generator" and r0 a b
  proof (induction b)
    case 0
    then show ?case by simp
  next
    case (Suc b)
    then show ?case by (cases "a = Suc b") (auto simp: undisturbed_run_snoc simp del: undisturbed_run.simps(2))
  qed
  from mono[OF u, of "Suc k"] k have uS: "undisturbed_run (output_generator m limit) r (Suc k)"
    by simp
  then have uk: "undisturbed_run (output_generator m limit) r k"
    by (simp add: undisturbed_run_snoc del: undisturbed_run.simps(2))
  from counter_after[OF l uk] obtain ws g r' where
    run: "generate_words (output_generator m limit) r k = Inr (ws, g, r')"
    and lim: "refresh_limit g = limit"
    and inv: "case k of 0 \<Rightarrow> prev g = None \<and> refresh_cnt g = limit
            | Suc j \<Rightarrow> prev g \<noteq> None \<and> refresh_cnt g = limit - 1 - int (j mod nat limit)"
    by blast
  from uS run have ug: "undisturbed g r'" by (simp add: undisturbed_run_snoc del: undisturbed_run.simps(2))
  have forced: "refresh_cnt g \<le> 0 \<longleftrightarrow> 0 < k \<and> k mod nat limit = 0"
  proof (cases k)
    case 0
    with inv l show ?thesis by simp
  next
    case (Suc j)
    with inv have c: "refresh_cnt g = limit - 1 - int (j mod nat limit)" by simp
    have lt: "j mod nat limit < nat limit" using l by simp
    show ?thesis
    proof (cases "Suc (j mod nat limit) = nat limit")
      case True
      then have "k mod nat limit = 0" using Suc by (simp add: mod_Suc)
      moreover from True l have "refresh_cnt g \<le> 0" unfolding c by linarith
      ultimately show ?thesis using Suc by simp
    next
      case False
      then have "k mod nat limit = Suc (j mod nat limit)" using Suc by (simp add: mod_Suc)
      moreover from False lt l have "\<not> refresh_cnt g \<le> 0" unfolding c by linarith
      ultimately show ?thesis by simp
    qed
  qed
  have greedy: "\<exists>w. select_candidate g r' = Inr (w, g, r') \<and>
      (trigram_head g = Some w \<or> (trigram_head g = None \<and> bigram_head g = Some w))"
    if "0 < k" "k mod nat limit \<noteq> 0"
  proof -
    from that forced have pos: "0 < refresh_cnt g" by simp
    from that(1) inv have p: "prev g \<noteq> None" by (cases k) simp_all
    from ug obtain c g1 r1 where s: "select_candidate g r' = Inr (c, g1, r1)"
      and av: "refresh_cnt g \<le> 0 \<or> prev g = None \<or> greedy_available g"
      by (auto simp: undisturbed_def split: sum.splits)
    from av pos p have "greedy_available g" by auto
    from greedy_selection[OF s pos p this] s show ?thesis by auto
  qed
  show ?thesis
    apply (rule exI[of _ ws], rule exI[of _ g], rule exI[of _ r'])
    using run forced greedy by simp
qed

lemmas undisturbed_defs = undisturbed_def select_candidate_def best_trigram_def best_bigram_def
  rand_word_def random_choice_def Let_def cycle_detected_def greedy_available_def
  trigram_head_def bigram_head_def trigrams_def bigrams_def

lemma example_run:
  shows "generate_words (output_generator worked_example_finished 2) (0 ## 2 ## 7 ## sconst 0) 3
           = Inr ([''x'', ''y'', ''z''], greedy_generator, 7 ## sconst 0)"
    and "generate_words (output_generator worked_example_finished 2) (0 ## 2 ## 7 ## sconst 0) 4
           = Inr ([''x'', ''y'', ''z'', ''x''], forced_generator, 7 ## sconst 0)"
    and "undisturbed_run (output_generator worked_example_finished 2) (0 ## 2 ## 7 ## sconst 0) 5"
proof -
  let ?fw = "first_words worked_example_finished"
  let ?s0 = "\<lparr>first_words = ?fw, prev_prev = None, prev = None,
       refresh_limit = 2, refresh_cnt = 2, prev_4 = None, prev_3 = None\<rparr>"
  let ?s1 = "\<lparr>first_words = ?fw, prev_prev = None, prev = Some ''x'',
       refresh_limit = 2, refresh_cnt = 1, prev_4 = None, prev_3 = None\<rparr>"
  let ?s2 = "\<lparr>first_words = ?fw, prev_prev = Some ''x'', prev = Some ''y'',
       refresh_limit = 2, refresh_cnt = 0, prev_4 = None, prev_3 = None\<rparr>"
  let ?s3 = "\<lparr>first_words = ?fw, prev_prev = Some ''y'', prev = Some ''z'',
       refresh_limit = 2, refresh_cnt = 1, prev_4 = None, prev_3 = Some ''x''\<rparr>"
  let ?s4 = "\<lparr>first_words = ?fw, prev_prev = Some ''z'', prev = Some ''x'',
       refresh_limit = 2, refresh_cnt = 0, prev_4 = Some ''x'', prev_3 = Some ''y''\<rparr>"
  let ?s5 = "\<lparr>first_words = ?fw, prev_prev = Some ''x'', prev = Some ''w'',
       refresh_limit = 2, refresh_cnt = 1, prev_4 = Some ''y'', prev_3 = Some ''z''\<rparr>"
  have g1: "generate_word ?s0 (0 ## 2 ## 7 ## sconst 0) = Inr (''x'', ?s1, 2 ## 7 ## sconst 0)"
    by (simp add: gen_defs worked_example_finished_def)
  have g2: "generate_word ?s1 (2 ## 7 ## sconst 0) = Inr (''y'', ?s2, 2 ## 7 ## sconst 0)"
    by (simp add: gen_defs worked_example_finished_def)
  have g3: "generate_word ?s2 (2 ## 7 ## sconst 0) = Inr (''z'', ?s3, 7 ## sconst 0)"
    by (simp add: gen_defs worked_example_finished_def)
  have g4: "generate_word ?s3 (7 ## sconst 0) = Inr (''x'', ?s4, 7 ## sconst 0)"
    by (simp add: gen_defs worked_example_finished_def)
  have g5: "generate_word ?s4 (7 ## sconst 0) = Inr (''w'', ?s5, sconst 0)"
    by (simp add: gen_defs worked_example_finished_def)
  have u1: "undisturbed ?s0 (0 ## 2 ## 7 ## sconst 0)"
    by (simp add: undisturbed_defs worked_example_finished_def)
  have u2: "undisturbed ?s1 (2 ## 7 ## sconst 0)"
    by (simp add: undisturbed_defs worked_example_finished_def)
  have u3: "undisturbed ?s2 (2 ## 7 ## sconst 0)"
    by (simp add: undisturbed_defs worked_example_finished_def)
  have u4: "undisturbed ?s3 (7 ## sconst 0)"
    by (simp add: undisturbed_defs worked_example_finished_def)
  have u5: "undisturbed ?s4 (7 ## sconst 0)"
    by (simp add: undisturbed_defs worked_example_finished_def)
  have n3: "(3::nat) = Suc (Suc (Suc 0))" by simp
  have n4: "(4::nat) = Suc (Suc (Suc (Suc 0)))" by simp
  have n5: "(5::nat) = Suc (Suc (Suc (Suc (Suc 0))))" by simp
  show "generate_words (output_generator worked_example_finished 2) (0 ## 2 ## 7 ## sconst 0) 3
           = Inr ([''x'', ''y'', ''z''], greedy_generator, 7 ## sconst 0)"
    unfolding n3 generate_words.simps output_generator_def OutputGenerator_def greedy_generator_def
    by (simp add: g1 g2 g3)
  show "generate_words (output_generator worked_example_finished 2) (0 ## 2 ## 7 ## sconst 0) 4
           = Inr ([''x'', ''y'', ''z'', ''x''], forced_generator, 7 ## sconst 0)"
    unfolding n4 generate_words.simps output_generator_def OutputGenerator_def forced_generator_def
    by (simp add: g1 g2 g3 g4)
  show "undisturbed_run (output_generator worked_example_finished 2) (0 ## 2 ## 7 ## sconst 0) 5"
    unfolding n5 undisturbed_run.simps output_generator_def OutputGenerator_def
    by (simp add: g1 g2 g3 g4 g5 u1 u2 u3 u4 u5)
qed


theorem refresh_period_witness:
  "(1::int) \<le> 2 \<and>
   undisturbed_run (output_generator worked_example_finished 2) (0 ## 2 ## 7 ## sconst 0) 5 \<and>
   (4::nat) < 5 \<and>
   generate_words (output_generator worked_example_finished 2) (0 ## 2 ## 7 ## sconst 0) 4
     = Inr ([''x'', ''y'', ''z'', ''x''], forced_generator, 7 ## sconst 0) \<and>
   refresh_cnt forced_generator \<le> 0 \<and>
   (4::nat) mod nat 2 = 0 \<and>
   generate_words (output_generator worked_example_finished 2) (0 ## 2 ## 7 ## sconst 0) 3
     = Inr ([''x'', ''y'', ''z''], greedy_generator, 7 ## sconst 0) \<and>
   (3::nat) mod nat 2 \<noteq> 0 \<and>
   0 < refresh_cnt greedy_generator \<and>
   select_candidate greedy_generator (7 ## sconst 0) = Inr (''x'', greedy_generator, 7 ## sconst 0) \<and>
   trigram_head greedy_generator = Some ''x''"
proof -
  have l: "(1::int) \<le> 2" by simp
  have k4: "(4::nat) < 5" and k3: "(3::nat) < 5" by simp_all
  from refresh_period[OF l example_run(3) k4] example_run(2)
  have f: "refresh_cnt forced_generator \<le> 0" by simp
  from refresh_period[OF l example_run(3) k3] example_run(1)
  have "\<exists>w. select_candidate greedy_generator (7 ## sconst 0) = Inr (w, greedy_generator, 7 ## sconst 0) \<and>
      (trigram_head greedy_generator = Some w \<or>
       (trigram_head greedy_generator = None \<and> bigram_head greedy_generator = Some w))"
    and p: "0 < refresh_cnt greedy_generator"
    by simp_all
  moreover have "trigram_head greedy_generator = Some ''x''"
    by (simp add: trigram_head_def trigrams_def bigrams_def greedy_generator_def
        worked_example_finished_def)
  ultimately have s: "select_candidate greedy_generator (7 ## sconst 0)
      = Inr (''x'', greedy_generator, 7 ## sconst 0)"
    and t: "trigram_head greedy_generator = Some ''x''" by auto
  from l k4 f p s t example_run show ?thesis by simp
qed

text \<open>
  C5, as stated, fails: with limit \<open>R = 2\<close> on the worked example, in a run of five calls
  without interference, the fifth call takes the forced draw, and 5 is \<open>2 R + 1\<close>, not a
  multiple of \<open>R + 1\<close>: the call that draws also decrements the counter that it has just
  reset, so the draws are \<open>R\<close> calls apart, not \<open>R + 1\<close>.
\<close>

theorem refresh_period_counterexample:
  "(1::int) \<le> 2 \<and>
   undisturbed_run (output_generator worked_example_finished 2) (0 ## 2 ## 7 ## sconst 0) 5 \<and>
   generate_words (output_generator worked_example_finished 2) (0 ## 2 ## 7 ## sconst 0) 4
     = Inr ([''x'', ''y'', ''z'', ''x''], forced_generator, 7 ## sconst 0) \<and>
   refresh_cnt forced_generator \<le> 0 \<and>
   select_candidate forced_generator (7 ## sconst 0) = rand_word forced_generator (7 ## sconst 0) \<and>
   (5::nat) mod (nat 2 + 1) \<noteq> 0"
proof -
  have "refresh_cnt forced_generator \<le> 0" by (simp add: forced_generator_def)
  moreover have "select_candidate forced_generator (7 ## sconst 0)
      = rand_word forced_generator (7 ## sconst 0)"
    by (simp add: select_candidate_def forced_generator_def)
  ultimately show ?thesis using example_run by simp
qed

end
